theory Spec2Isabelle
  imports Complex_Main "HOL-Library.Code_Target_Nat"
begin

section \<open>JavaScript strings\<close>

text \<open>
  A JavaScript string is a sequence of UTF-16 code units; \<open>length\<close>, \<open>slice\<close>,
  \<open>includes\<close> and the regular expressions of the scripts (none has the \<open>u\<close> flag) all
  work on code units. A code unit is a natural number below 65536. \<open>js\<close> embeds an
  ASCII literal.
\<close>

type_synonym jsstr = "nat list"

definition js :: "string \<Rightarrow> jsstr" where
  "js s = map of_char s"

text \<open>
  The code units that \<open>\s\<close> matches and that \<open>String.prototype.trim\<close> strips:
  WhiteSpace and LineTerminator of ECMAScript.
\<close>

definition is_space :: "nat \<Rightarrow> bool" where
  "is_space c \<longleftrightarrow>
     c \<in> {9, 10, 11, 12, 13, 32, 160, 0x1680, 0x2028, 0x2029, 0x202F, 0x205F, 0x3000, 0xFEFF}
     \<or> (0x2000 \<le> c \<and> c \<le> 0x200A)"

definition is_digit :: "nat \<Rightarrow> bool" where
  "is_digit c \<longleftrightarrow> 48 \<le> c \<and> c \<le> 57"

definition is_upper :: "nat \<Rightarrow> bool" where
  "is_upper c \<longleftrightarrow> 65 \<le> c \<and> c \<le> 90"

definition is_lower :: "nat \<Rightarrow> bool" where
  "is_lower c \<longleftrightarrow> 97 \<le> c \<and> c \<le> 122"

definition is_alnum :: "nat \<Rightarrow> bool" where
  "is_alnum c \<longleftrightarrow> is_lower c \<or> is_upper c \<or> is_digit c"

definition trim :: "jsstr \<Rightarrow> jsstr" where
  "trim s = rev (dropWhile is_space (rev (dropWhile is_space s)))"

text \<open>\<open>a.includes(b)\<close>: \<open>b\<close> occurs in \<open>a\<close> at some offset.\<close>

fun starts_with :: "jsstr \<Rightarrow> jsstr \<Rightarrow> bool" where
  "starts_with s [] = True"
| "starts_with [] (p # ps) = False"
| "starts_with (c # cs) (p # ps) = (c = p \<and> starts_with cs ps)"

fun str_includes :: "jsstr \<Rightarrow> jsstr \<Rightarrow> bool" where
  "str_includes [] b = starts_with [] b"
| "str_includes (c # cs) b = (starts_with (c # cs) b \<or> str_includes cs b)"

section \<open>Regular expressions\<close>

text \<open>
  The patterns of the scripts use single code units and classes, sequence, alternation,
  and the greedy quantifiers \<open>?\<close>, \<open>*\<close>, \<open>+\<close>, \<open>{n}\<close> and \<open>{n,}\<close>. \<open>matches r s\<close> lists,
  in the order in which the backtracking matcher of ECMAScript tries them, the rests of
  \<open>s\<close> that remain after a match of \<open>r\<close> at the start of \<open>s\<close>. A quantifier gives up an
  iteration that consumed nothing (the empty check of RepeatMatcher).
\<close>

datatype re =
    Eps
  | Atom "nat \<Rightarrow> bool"
  | Seq re re
  | Alt re re
  | Opt re
  | Star re

function matches :: "re \<Rightarrow> jsstr \<Rightarrow> jsstr list" where
  "matches Eps s = [s]"
| "matches (Atom p) s = (case s of [] \<Rightarrow> [] | c # cs \<Rightarrow> if p c then [cs] else [])"
| "matches (Seq a b) s = concat (map (matches b) (matches a s))"
| "matches (Alt a b) s = matches a s @ matches b s"
| "matches (Opt a) s = filter (\<lambda>r. length r < length s) (matches a s) @ [s]"
| "matches (Star a) s =
     concat (map (matches (Star a)) (filter (\<lambda>r. length r < length s) (matches a s))) @ [s]"
  by pat_completeness auto
termination
  by (relation "measure size <*lex*> measure length") auto

text \<open>
  The equation of \<open>Star\<close> unfolds into itself: it is applied by hand and by \<open>code_simp\<close>,
  not by the simplifier.
\<close>

declare matches.simps(6) [simp del]

text \<open>A sequence of patterns, \<open>r{n}\<close>, \<open>r+\<close> and \<open>r{n,}\<close>.\<close>

fun seqs :: "re list \<Rightarrow> re" where
  "seqs [] = Eps"
| "seqs (r # rs) = Seq r (seqs rs)"

definition rep_exact :: "nat \<Rightarrow> re \<Rightarrow> re" where
  "rep_exact n r = seqs (replicate n r)"

definition Plus :: "re \<Rightarrow> re" where
  "Plus r = Seq r (Star r)"

definition AtLeast :: "nat \<Rightarrow> re \<Rightarrow> re" where
  "AtLeast n r = Seq (rep_exact n r) (Star r)"

text \<open>
  A literal code unit, and a literal text. Under the \<open>i\<close> flag two code units match when
  their canonical forms are equal. Without the \<open>u\<close> flag the canonical form is the upper
  case, except that a code unit from 128 on is never mapped below 128: an ASCII letter
  of a pattern matches its two ASCII forms and nothing else.
\<close>

definition canon :: "nat \<Rightarrow> nat" where
  "canon c = (if is_lower c then c - 32 else c)"

definition lit :: "char \<Rightarrow> re" where
  "lit ch = Atom (\<lambda>c. c = of_char ch)"

definition lit_i :: "char \<Rightarrow> re" where
  "lit_i ch = Atom (\<lambda>c. canon c = canon (of_char ch))"

definition txt_cs :: "string \<Rightarrow> re" where
  "txt_cs s = seqs (map lit s)"

definition txt_i :: "string \<Rightarrow> re" where
  "txt_i s = seqs (map lit_i s)"

text \<open>A class of listed code units, and its negation (\<open>[...]\<close> and \<open>[^...]\<close>).\<close>

definition one_of :: "string \<Rightarrow> re" where
  "one_of s = Atom (\<lambda>c. c \<in> set (map of_char s))"

definition none_of :: "string \<Rightarrow> re" where
  "none_of s = Atom (\<lambda>c. c \<notin> set (map of_char s))"

definition one_of_i :: "string \<Rightarrow> re" where
  "one_of_i s = Atom (\<lambda>c. canon c \<in> set (map (\<lambda>ch. canon (of_char ch)) s))"

text \<open>
  \<open>pattern.test(s)\<close> for a pattern without the \<open>g\<close> flag: a match at some offset.
\<close>

fun re_test :: "re \<Rightarrow> jsstr \<Rightarrow> bool" where
  "re_test r [] = (matches r [] \<noteq> [])"
| "re_test r (c # cs) = (matches r (c # cs) \<noteq> [] \<or> re_test r cs)"

text \<open>
  \<open>pattern.exec(s)\<close> for a pattern \<open>p(g)\<close> that ends with its only capture group,
  tried at the start of \<open>s\<close>: of the first way to match in backtracking order, the text
  the group captured and the rest of \<open>s\<close> after the match.
\<close>

definition exec_here :: "re \<Rightarrow> re \<Rightarrow> jsstr \<Rightarrow> (jsstr \<times> jsstr) option" where
  "exec_here p g s =
     (case concat (map (\<lambda>r1. map (\<lambda>r2. (take (length r1 - length r2) r1, r2)) (matches g r1))
                       (matches p s)) of
        [] \<Rightarrow> None
      | m # _ \<Rightarrow> Some m)"

text \<open>
  The start positions are tried from left to right. With the \<open>g\<close> flag the search
  starts at \<open>lastIndex\<close> and a match sets \<open>lastIndex\<close> to its end: the string given here
  is the part of the subject from \<open>lastIndex\<close> on, and the rest returned is the part from
  the new \<open>lastIndex\<close> on. (None of the patterns looks behind the start of a match.)
\<close>

fun re_search :: "re \<Rightarrow> re \<Rightarrow> jsstr \<Rightarrow> (jsstr \<times> jsstr) option" where
  "re_search p g [] = exec_here p g []"
| "re_search p g (c # cs) =
     (case exec_here p g (c # cs) of Some m \<Rightarrow> Some m | None \<Rightarrow> re_search p g cs)"

section \<open>Configuration of the auto-close script\<close>

text \<open>
  \<^verbatim>\<open>COMMIT_PATTERN = /(?:Closes?|Fix(?:es)?|Resolve[sd]?|Complete[sd]?|Done):\s*TODO-(\d+)/gi\<close>,
  as the part before the capture group and the group \<open>\d+\<close>.
\<close>

definition COMMIT_VERB :: re where
  "COMMIT_VERB =
     Alt (Seq (txt_i ''Close'') (Opt (lit_i CHR ''s'')))
    (Alt (Seq (txt_i ''Fix'') (Opt (txt_i ''es'')))
    (Alt (Seq (txt_i ''Resolve'') (Opt (one_of_i ''sd'')))
    (Alt (Seq (txt_i ''Complete'') (Opt (one_of_i ''sd'')))
         (txt_i ''Done''))))"

definition COMMIT_PREFIX :: re where
  "COMMIT_PREFIX = seqs [COMMIT_VERB, lit_i CHR '':'', Star (Atom is_space), txt_i ''TODO-'']"

definition COMMIT_GROUP :: re where
  "COMMIT_GROUP = Plus (Atom is_digit)"

text \<open>
  The secret patterns, in the order of \<open>SECRET_PATTERNS\<close>:
  \<^verbatim>\<open>/sk-[a-zA-Z0-9]{20,}/\<close>,
  \<^verbatim>\<open>/AIza[0-9A-Za-z-_]{35}/\<close>,
  \<^verbatim>\<open>/AKIA[0-9A-Z]{16}/\<close>,
  \<^verbatim>\<open>/password\s*=\s*['"][^'"]+['"]/i\<close>,
  \<^verbatim>\<open>/api[_-]?key\s*[:=]\s*['"][^'"]+['"]/i\<close>,
  \<^verbatim>\<open>/secret\s*[:=]\s*['"][^'"]+['"]/i\<close>,
  \<^verbatim>\<open>/token\s*[:=]\s*['"][^'"]{20,}['"]/i\<close>,
  \<^verbatim>\<open>/bearer\s+[a-zA-Z0-9\-_\.]+/i\<close>,
  \<^verbatim>\<open>/-----BEGIN [A-Z\s]+ PRIVATE KEY-----/\<close>.
  Code unit 39 is the apostrophe and 34 the double quote.
\<close>

definition quote :: re where
  "quote = Atom (\<lambda>c. c = 39 \<or> c = 34)"

definition not_quote :: re where
  "not_quote = Atom (\<lambda>c. \<not> (c = 39 \<or> c = 34))"

definition ws :: re where
  "ws = Star (Atom is_space)"

definition SECRET_OPENAI :: re where
  "SECRET_OPENAI = Seq (txt_cs ''sk-'') (AtLeast 20 (Atom is_alnum))"

definition SECRET_GOOGLE :: re where
  "SECRET_GOOGLE =
     Seq (txt_cs ''AIza'') (rep_exact 35 (Atom (\<lambda>c. is_alnum c \<or> c = of_char CHR ''-'' \<or> c = of_char CHR ''_'')))"

definition SECRET_AWS :: re where
  "SECRET_AWS = Seq (txt_cs ''AKIA'') (rep_exact 16 (Atom (\<lambda>c. is_digit c \<or> is_upper c)))"

definition SECRET_PASSWORD :: re where
  "SECRET_PASSWORD =
     seqs [txt_i ''password'', ws, lit_i CHR ''='', ws, quote, Plus not_quote, quote]"

definition SECRET_APIKEY :: re where
  "SECRET_APIKEY =
     seqs [txt_i ''api'', Opt (one_of_i ''_-''), txt_i ''key'', ws, one_of_i '':='', ws,
           quote, Plus not_quote, quote]"

definition SECRET_SECRET :: re where
  "SECRET_SECRET =
     seqs [txt_i ''secret'', ws, one_of_i '':='', ws, quote, Plus not_quote, quote]"

definition SECRET_TOKEN :: re where
  "SECRET_TOKEN =
     seqs [txt_i ''token'', ws, one_of_i '':='', ws, quote, AtLeast 20 not_quote, quote]"

definition SECRET_BEARER :: re where
  "SECRET_BEARER =
     seqs [txt_i ''bearer'', Plus (Atom is_space),
           Plus (Atom (\<lambda>c. is_alnum c \<or> c = of_char CHR ''-'' \<or> c = of_char CHR ''_''
                            \<or> c = of_char CHR ''.''))]"

definition SECRET_PRIVATE_KEY :: re where
  "SECRET_PRIVATE_KEY =
     seqs [txt_cs ''-----BEGIN '', Plus (Atom (\<lambda>c. is_upper c \<or> is_space c)),
           txt_cs '' PRIVATE KEY-----'']"

definition SECRET_PATTERNS :: "re list" where
  "SECRET_PATTERNS =
     [SECRET_OPENAI, SECRET_GOOGLE, SECRET_AWS, SECRET_PASSWORD, SECRET_APIKEY,
      SECRET_SECRET, SECRET_TOKEN, SECRET_BEARER, SECRET_PRIVATE_KEY]"

definition MAX_DIFF_SIZE :: nat where
  "MAX_DIFF_SIZE = 6000"

section \<open>Secret detection and size limit\<close>

fun detectSecrets_loop :: "re list \<Rightarrow> jsstr \<Rightarrow> bool" where
  "detectSecrets_loop [] diff = False"
| "detectSecrets_loop (pattern # patterns) diff =
     (if re_test pattern diff then True else detectSecrets_loop patterns diff)"

definition detectSecrets :: "jsstr \<Rightarrow> bool" where
  "detectSecrets diff = detectSecrets_loop SECRET_PATTERNS diff"

datatype error = SecretDetected | MissingApiKey | ModelCallFailed | TodoNotFound jsstr | StoreError

text \<open>
  \<open>sanitizeDiff\<close> throws when a secret is detected; otherwise it returns the diff, cut to
  its first \<open>MAX_DIFF_SIZE\<close> code units when it is longer. The list of changed files is
  a parameter that the function does not use.
\<close>

definition sanitizeDiff :: "jsstr \<Rightarrow> jsstr list \<Rightarrow> error + jsstr" where
  "sanitizeDiff diff changedFiles =
     (let sanitized = diff in
      if detectSecrets sanitized then Inl SecretDetected
      else if length sanitized > MAX_DIFF_SIZE then Inr (take MAX_DIFF_SIZE sanitized)
      else Inr sanitized)"

section \<open>Phase 1: the commit message\<close>

text \<open>
  The loop \<open>while ((match = pattern.exec(message)) !== null)\<close>: the first argument is the
  result of the call of \<open>exec\<close> in the loop condition.
\<close>

function phase1_loop :: "(jsstr \<times> jsstr) option \<Rightarrow> jsstr list \<Rightarrow> jsstr list" where
  "phase1_loop None todos = todos"
| "phase1_loop (Some (cap, rest)) todos =
     phase1_loop (re_search COMMIT_PREFIX COMMIT_GROUP rest) (todos @ [js ''TODO-'' @ cap])"
  by pat_completeness auto
termination
proof (relation "measure (\<lambda>(match, todos). case match of None \<Rightarrow> 0 | Some (cap, rest) \<Rightarrow> Suc (length rest))")
  have le: "r \<in> set (matches e s) \<Longrightarrow> length r \<le> length s" for e s r
  proof (induction e s arbitrary: r rule: matches.induct)
    case (3 a b s)
    then show ?case by (fastforce dest: order_trans)
  next
    case (6 a s)
    from "6.prems" have "r = s \<or> (\<exists>x \<in> set (filter (\<lambda>r. length r < length s) (matches a s)).
        r \<in> set (matches (Star a) x))"
      by (subst (asm) matches.simps(6)) (auto simp del: matches.simps)
    then show ?case
    proof
      assume "r = s"
      then show ?thesis by simp
    next
      assume "\<exists>x \<in> set (filter (\<lambda>r. length r < length s) (matches a s)).
        r \<in> set (matches (Star a) x)"
      then obtain x where x: "x \<in> set (filter (\<lambda>r. length r < length s) (matches a s))"
        "r \<in> set (matches (Star a) x)"
        by blast
      from "6.IH"(2) [OF x] x(1) show ?thesis by simp
    qed
  qed (auto split: list.splits if_splits)
  have grp: "r \<in> set (matches COMMIT_GROUP s) \<Longrightarrow> length r < length s" for s r
    by (cases s) (auto simp: COMMIT_GROUP_def Plus_def split: if_splits dest!: le)
  have here: "exec_here COMMIT_PREFIX COMMIT_GROUP s = Some (cap, rest) \<Longrightarrow> length rest < length s"
    for s cap rest
  proof -
    let ?ms = "concat (map (\<lambda>r1. map (\<lambda>r2. (take (length r1 - length r2) r1, r2))
        (matches COMMIT_GROUP r1)) (matches COMMIT_PREFIX s))"
    assume "exec_here COMMIT_PREFIX COMMIT_GROUP s = Some (cap, rest)"
    then obtain xs where "?ms = (cap, rest) # xs"
      by (auto simp: exec_here_def split: list.splits)
    then have "(cap, rest) \<in> set ?ms"
      by (metis list.set_intros(1))
    then obtain r1 where "r1 \<in> set (matches COMMIT_PREFIX s)" "rest \<in> set (matches COMMIT_GROUP r1)"
      by auto
    then show ?thesis using le [of r1 COMMIT_PREFIX s] grp [of rest r1] by simp
  qed
  have search: "re_search COMMIT_PREFIX COMMIT_GROUP s = Some (cap, rest) \<Longrightarrow> length rest < length s"
    for s cap rest
    by (induction s) (auto dest!: here split: option.splits)
  show "\<And>cap rest todos.
       ((re_search COMMIT_PREFIX COMMIT_GROUP rest, todos @ [js ''TODO-'' @ cap]), Some (cap, rest), todos)
       \<in> measure (\<lambda>(match, todos). case match of None \<Rightarrow> 0 | Some (cap, rest) \<Rightarrow> Suc (length rest))"
    using search by (auto split: option.splits)
qed simp

text \<open>\<open>[...new Set(todos)]\<close>: the first occurrence of each element, in order.\<close>

fun dedup :: "jsstr list \<Rightarrow> jsstr list \<Rightarrow> jsstr list" where
  "dedup seen [] = seen"
| "dedup seen (x # xs) = (if x \<in> set seen then dedup seen xs else dedup (seen @ [x]) xs)"

definition phase1_extractFromMessage :: "jsstr \<Rightarrow> jsstr list" where
  "phase1_extractFromMessage message =
     dedup [] (phase1_loop (re_search COMMIT_PREFIX COMMIT_GROUP message) [])"

section \<open>Phase 2: file names\<close>

text \<open>
  The fields of a ticket document that the script reads or writes. The store names them
  in Japanese: \<open>ToDoTitle\<close> and \<open>ToDoContent\<close> are the title and the body,
  \<open>targetFile\<close> is the artifact file name inside the judgement-target information (\<open>None\<close>
  when either is missing), \<open>todo_status\<close> the status, \<open>closeCandidate\<close> the
  close-candidate flag, \<open>history\<close> the judgement history (\<open>None\<close> when the document
  has none), \<open>closeDate\<close> and \<open>updateDate\<close> the two dates.
\<close>

datatype jsnum = Num rat | NaN

record ai_analysis =
  analyzedAt :: jsstr
  ai_confidence :: jsnum
  ai_reason :: jsstr
  ai_model :: jsstr

record history_entry =
  h_datetime :: jsstr
  h_reason :: jsstr
  h_commitHash :: jsstr
  h_commitMessage :: jsstr
  h_method :: jsstr

record todo =
  ToDoNo :: jsstr
  ToDoTitle :: jsstr
  ToDoContent :: jsstr
  targetFile :: "jsstr option"
  todo_status :: jsstr
  closeCandidate :: "jsstr option"
  aiAnalysis :: "ai_analysis option"
  history :: "history_entry list option"
  closeDate :: "jsstr option"
  updateDate :: "jsstr option"

record fmatch =
  m_todoNo :: jsstr
  m_reason :: jsstr
  m_matchedFile :: jsstr

text \<open>The text of \<open>m_reason\<close>: "file match: ", the pattern, an arrow, the file.\<close>

definition match_reason :: "jsstr \<Rightarrow> jsstr \<Rightarrow> jsstr" where
  "match_reason target file =
     [0x30D5, 0x30A1, 0x30A4, 0x30EB, 0x7167, 0x5408] @ js '': '' @ target
       @ [32, 0x2192, 32] @ file"

text \<open>
  The two inner loops: the first changed file that the glob matcher accepts, and the first
  one that contains the pattern or is contained in it. \<open>minimatch\<close> is the function of
  the package of that name, which the script imports: it is a parameter here, called as
  \<open>minimatch file pattern\<close>.
\<close>

fun glob_loop :: "(jsstr \<Rightarrow> jsstr \<Rightarrow> bool) \<Rightarrow> jsstr \<Rightarrow> jsstr list \<Rightarrow> jsstr option" where
  "glob_loop minimatch target [] = None"
| "glob_loop minimatch target (file # files) =
     (if minimatch file target then Some file else glob_loop minimatch target files)"

fun substring_loop :: "jsstr \<Rightarrow> jsstr list \<Rightarrow> jsstr option" where
  "substring_loop target [] = None"
| "substring_loop target (file # files) =
     (if str_includes file target \<or> str_includes target file then Some file
      else substring_loop target files)"

fun phase2_matchByFileName ::
  "(jsstr \<Rightarrow> jsstr \<Rightarrow> bool) \<Rightarrow> jsstr list \<Rightarrow> todo list \<Rightarrow> fmatch list" where
  "phase2_matchByFileName minimatch changedFiles [] = []"
| "phase2_matchByFileName minimatch changedFiles (todo # todos) =
     (case targetFile todo of
        None \<Rightarrow> phase2_matchByFileName minimatch changedFiles todos
      | Some target \<Rightarrow>
          if target = [] \<or> trim target = [] then phase2_matchByFileName minimatch changedFiles todos
          else
            (case (if str_includes target (js ''*'') \<or> str_includes target (js ''?'')
                   then glob_loop minimatch target changedFiles
                   else substring_loop target changedFiles) of
               None \<Rightarrow> phase2_matchByFileName minimatch changedFiles todos
             | Some matchedFile \<Rightarrow>
                 \<lparr>m_todoNo = ToDoNo todo, m_reason = match_reason target matchedFile,
                  m_matchedFile = matchedFile\<rparr>
                 # phase2_matchByFileName minimatch changedFiles todos))"

section \<open>Excluded files\<close>

definition EXCLUDED_PATTERNS :: "string list" where
  "EXCLUDED_PATTERNS =
     [''package-lock.json'', ''yarn.lock'', ''pnpm-lock.yaml'', ''composer.lock'',
      ''.env'', ''.env.local'', ''.env.production'', ''.env.development'',
      ''*.key'', ''*.pem'', ''*.cert'', ''*.p12'', ''service-account-key.json'',
      ''credentials.json'',
      ''*.png'', ''*.jpg'', ''*.jpeg'', ''*.gif'', ''*.pdf'', ''*.ico'', ''*.svg'',
      ''*.woff'', ''*.woff2'', ''*.ttf'', ''*.eot'',
      ''dist/*'', ''build/*'', ''node_modules/*'', ''vendor/*'', ''.next/*'', ''out/*'',
      ''.DS_Store'', ''.gitignore'', ''Thumbs.db'', ''desktop.ini'']"

text \<open>
  \<open>isExcludedFile\<close> turns a pattern into an anchored regular expression: a dot is taken
  literally, \<open>*\<close> becomes \<open>.*\<close> and \<open>?\<close> becomes \<open>.\<close> (any code unit but a line
  terminator).
\<close>

definition any_char :: re where
  "any_char = Atom (\<lambda>c. c \<notin> {10, 13, 0x2028, 0x2029})"

fun pattern_re :: "string \<Rightarrow> re" where
  "pattern_re [] = Eps"
| "pattern_re (ch # chs) =
     Seq (if ch = CHR ''*'' then Star any_char else if ch = CHR ''?'' then any_char else lit ch)
         (pattern_re chs)"

definition full_match :: "re \<Rightarrow> jsstr \<Rightarrow> bool" where
  "full_match r s \<longleftrightarrow> [] \<in> set (matches r s)"

definition isExcludedFile :: "jsstr \<Rightarrow> bool" where
  "isExcludedFile filePath = list_ex (\<lambda>pattern. full_match (pattern_re pattern) filePath) EXCLUDED_PATTERNS"

definition filterExcludedFiles :: "jsstr list \<Rightarrow> jsstr list" where
  "filterExcludedFiles changedFiles = filter (\<lambda>file. \<not> isExcludedFile file) changedFiles"

section \<open>The environment of a run\<close>

text \<open>
  A JavaScript number that is compared with a threshold; \<open>NaN\<close> also stands for a value
  that is missing or not a number (every comparison with it is false).
\<close>

fun num_ge :: "jsnum \<Rightarrow> jsnum \<Rightarrow> bool" where
  "num_ge (Num a) (Num b) = (b \<le> a)"
| "num_ge _ _ = False"

fun or_zero :: "jsnum \<Rightarrow> jsnum" where
  "or_zero (Num a) = Num a"
| "or_zero NaN = Num 0"

text \<open>\<open>a || b\<close> on strings: the empty string is falsy.\<close>

definition or_else :: "jsstr \<Rightarrow> jsstr \<Rightarrow> jsstr" where
  "or_else a b = (if a = [] then b else a)"

record config =
  AI_ANALYSIS_ENABLED :: bool
  AI_MODEL :: jsstr
  AI_CONFIDENCE_THRESHOLD :: jsnum
  PHASE2_CONFIDENCE_THRESHOLD :: jsnum
  PHASE2_AI_ENABLED :: bool
  OPENAI_API_KEY :: bool
  REPOSITORY :: "jsstr option"

text \<open>
  A call of the model API, with the diff text and the tickets that its prompt holds,
  and what an external call comes back with.
\<close>

datatype call = QuickCall jsstr todo | AnalyzeCall jsstr "todo list"

datatype 'a outcome = Throws | Returns 'a

record quick_reply =
  q_confidence :: jsnum
  q_reason :: jsstr

record ai_result =
  a_todoNo :: jsstr
  a_reason :: jsstr
  a_confidence :: jsnum

record project =
  project_id :: jsstr
  project_name :: jsstr

text \<open>
  What the world outside answers: Git (the hash and the message of the latest commit,
  \<open>None\<close> when the command failed; the changed files; the diff of the commit and of one
  file), the clock, the glob matcher, the model (its reply may depend on the calls made
  before) and the three queries of \<open>getUnclosedTodos\<close>.
\<close>

record world =
  git_hash :: "jsstr option"
  git_message :: "jsstr option"
  git_changedFiles :: "jsstr list"
  git_commitDiff :: jsstr
  git_fileDiff :: "jsstr \<Rightarrow> jsstr"
  clock :: jsstr
  minimatch :: "jsstr \<Rightarrow> jsstr \<Rightarrow> bool"
  model_quick :: "call list \<Rightarrow> jsstr \<Rightarrow> todo \<Rightarrow> quick_reply outcome"
  model_analyze :: "call list \<Rightarrow> jsstr \<Rightarrow> todo list \<Rightarrow> ai_result list outcome"
  query_all_todos :: "todo list outcome"
  query_projects :: "jsstr \<Rightarrow> project list outcome"
  query_todos_of :: "jsstr \<Rightarrow> todo list outcome"

record commit =
  c_hash :: jsstr
  c_message :: jsstr

definition getLatestCommit :: "world \<Rightarrow> commit option" where
  "getLatestCommit w =
     (case (git_hash w, git_message w) of
        (Some h, Some m) \<Rightarrow> if h = [] \<or> m = [] then None else Some \<lparr>c_hash = h, c_message = m\<rparr>
      | _ \<Rightarrow> None)"

text \<open>The status of a closed ticket, as the store spells it.\<close>

definition STATUS_CLOSED :: jsstr where
  "STATUS_CLOSED = [0x30AF, 0x30ED, 0x30FC, 0x30BA]"

definition STATUS_IN_PROGRESS :: jsstr where
  "STATUS_IN_PROGRESS = [0x4F5C, 0x696D, 0x4E2D]"

definition STATUS_REVIEW_PENDING :: jsstr where
  "STATUS_REVIEW_PENDING = [0x78BA, 0x8A8D, 0x5F85, 0x3061]"

definition unclosed :: "todo list \<Rightarrow> todo list" where
  "unclosed todos = filter (\<lambda>t. todo_status t \<noteq> STATUS_CLOSED) todos"

text \<open>
  \<open>getUnclosedTodos\<close>: every exception of the store is caught and gives the empty list.
\<close>

definition getUnclosedTodos :: "config \<Rightarrow> world \<Rightarrow> todo list" where
  "getUnclosedTodos cfg w =
     (case (case REPOSITORY cfg of None \<Rightarrow> None | Some r \<Rightarrow> if r = [] then None else Some r) of
        None \<Rightarrow>
          (case query_all_todos w of Throws \<Rightarrow> [] | Returns todos \<Rightarrow> unclosed todos)
      | Some repository \<Rightarrow>
          (case query_projects w repository of
             Throws \<Rightarrow> []
           | Returns [] \<Rightarrow> []
           | Returns (project # _) \<Rightarrow>
               (case query_todos_of w (project_id project) of
                  Throws \<Rightarrow> []
                | Returns todos \<Rightarrow> unclosed todos)))"

section \<open>Model calls\<close>

record quick_result =
  qr_confidence :: jsnum
  qr_reason :: jsstr

text \<open>The two fallback reasons of \<open>quickAICheck\<close>: "AI check done" and "AI check error".\<close>

definition REASON_AI_DONE :: jsstr where
  "REASON_AI_DONE = js ''AI'' @ [0x5224, 0x5B9A, 0x5B8C, 0x4E86]"

definition REASON_AI_ERROR :: jsstr where
  "REASON_AI_ERROR = js ''AI'' @ [0x5224, 0x5B9A, 0x30A8, 0x30E9, 0x30FC]"

text \<open>
  \<open>quickAICheck\<close> sends the first 3000 code units of the file diff. A failure of the
  call is caught inside and gives confidence 0. The second component is the list of
  the calls made so far.
\<close>

definition quickAICheck ::
  "config \<Rightarrow> world \<Rightarrow> call list \<Rightarrow> jsstr \<Rightarrow> todo \<Rightarrow> (error + quick_result) \<times> call list" where
  "quickAICheck cfg w calls fileDiff todo =
     (if \<not> OPENAI_API_KEY cfg then (Inl MissingApiKey, calls)
      else
        let limitedDiff = take 3000 fileDiff in
        (case model_quick w calls limitedDiff todo of
           Throws \<Rightarrow> Inr \<lparr>qr_confidence = Num 0, qr_reason = REASON_AI_ERROR\<rparr>
         | Returns result \<Rightarrow>
             Inr \<lparr>qr_confidence = or_zero (q_confidence result),
                  qr_reason = or_else (q_reason result) REASON_AI_DONE\<rparr>,
         calls @ [QuickCall limitedDiff todo]))"

definition analyzeWithAI ::
  "config \<Rightarrow> world \<Rightarrow> call list \<Rightarrow> jsstr \<Rightarrow> todo list \<Rightarrow> (error + ai_result list) \<times> call list" where
  "analyzeWithAI cfg w calls diff todos =
     (if \<not> OPENAI_API_KEY cfg then (Inl MissingApiKey, calls)
      else
        (case model_analyze w calls diff todos of
           Throws \<Rightarrow> Inl ModelCallFailed
         | Returns results \<Rightarrow> Inr results,
         calls @ [AnalyzeCall diff todos]))"

section \<open>Phase 3: the diff\<close>

definition phase3_analyzeWithAI ::
  "config \<Rightarrow> world \<Rightarrow> call list \<Rightarrow> jsstr \<Rightarrow> jsstr list \<Rightarrow> todo list \<Rightarrow> ai_result list \<times> call list" where
  "phase3_analyzeWithAI cfg w calls diff changedFiles unclosedTodos =
     (if \<not> AI_ANALYSIS_ENABLED cfg then ([], calls)
      else if \<not> OPENAI_API_KEY cfg then ([], calls)
      else
        (case sanitizeDiff diff changedFiles of
           Inl e \<Rightarrow> ([], calls)
         | Inr sanitizedDiff \<Rightarrow>
             (case analyzeWithAI cfg w calls sanitizedDiff unclosedTodos of
                (Inl e, calls') \<Rightarrow> ([], calls')
              | (Inr aiResults, calls') \<Rightarrow>
                  (map (\<lambda>r. \<lparr>a_todoNo = a_todoNo r, a_reason = a_reason r,
                               a_confidence = a_confidence r\<rparr>)
                       (filter (\<lambda>r. num_ge (a_confidence r) (AI_CONFIDENCE_THRESHOLD cfg)) aiResults),
                   calls'))))"

section \<open>Merging the results\<close>

text \<open>
  The value that \<open>main\<close> stores per ticket and later hands to \<open>markAsCloseCandidate\<close>.
  \<open>p_status\<close> is \<open>None\<close> where \<open>main\<close> sets no status.
\<close>

record params =
  p_status :: "jsstr option"
  p_reason :: jsstr
  p_phase :: jsstr
  p_commitHash :: jsstr
  p_commitMessage :: jsstr
  p_aiAnalysis :: "ai_analysis option"

text \<open>
  A JavaScript \<open>Map\<close> keeps its entries in the order in which their keys were first set;
  \<open>set\<close> on a key that is present replaces the value in place.
\<close>

type_synonym results = "(jsstr \<times> params) list"

definition map_has :: "results \<Rightarrow> jsstr \<Rightarrow> bool" where
  "map_has m k \<longleftrightarrow> k \<in> set (map fst m)"

fun map_set :: "jsstr \<Rightarrow> params \<Rightarrow> results \<Rightarrow> results" where
  "map_set k v [] = [(k, v)]"
| "map_set k v ((k', v') # m) = (if k' = k then (k, v) # m else (k', v') # map_set k v m)"

text \<open>The phase names that \<open>main\<close> stores, and the reason of a Phase 1 result.\<close>

definition PHASE1 :: jsstr where
  "PHASE1 = js ''Phase1''"

definition PHASE2_AI :: jsstr where
  "PHASE2_AI = js ''Phase2'' @ [0x6539] @ js '' (AI)''"

definition PHASE2_PLAIN :: jsstr where
  "PHASE2_PLAIN = js ''Phase2 ('' @ [0x5F93, 0x6765] @ js '')''"

definition PHASE3 :: jsstr where
  "PHASE3 = js ''Phase3''"

definition REASON_COMMIT_MESSAGE :: jsstr where
  "REASON_COMMIT_MESSAGE =
     [0x30B3, 0x30DF, 0x30C3, 0x30C8, 0x30E1, 0x30C3, 0x30BB, 0x30FC, 0x30B8,
      0x306B, 0x3088, 0x308B, 0x5224, 0x5B9A]"

text \<open>\<open>hash.substring(0, 10)\<close> and \<open>message.split('\n')[0]\<close>.\<close>

definition short_hash :: "commit \<Rightarrow> jsstr" where
  "short_hash commit = take 10 (c_hash commit)"

definition first_line :: "commit \<Rightarrow> jsstr" where
  "first_line commit = takeWhile (\<lambda>c. c \<noteq> 10) (c_message commit)"

text \<open>The value that Phase 1 stores for each of its tickets.\<close>

definition phase1_result :: "commit \<Rightarrow> params" where
  "phase1_result commit =
     \<lparr>p_status = Some (js ''closed''), p_reason = REASON_COMMIT_MESSAGE, p_phase = PHASE1,
      p_commitHash = short_hash commit, p_commitMessage = first_line commit,
      p_aiAnalysis = None\<rparr>"

fun phase1_merge :: "commit \<Rightarrow> jsstr list \<Rightarrow> results \<Rightarrow> results" where
  "phase1_merge commit [] results = results"
| "phase1_merge commit (todoNo # phase1Results) results =
     phase1_merge commit phase1Results (map_set todoNo (phase1_result commit) results)"

text \<open>
  Phase 2 with the model check, one turn of its loop and the loop: a ticket that already
  has a result is skipped before its file diff is fetched; an exception of
  \<open>quickAICheck\<close> is caught and the loop goes on.
\<close>

definition phase2_ai_step ::
  "config \<Rightarrow> world \<Rightarrow> commit \<Rightarrow> todo list \<Rightarrow> fmatch \<Rightarrow> results \<times> call list
     \<Rightarrow> results \<times> call list" where
  "phase2_ai_step cfg w commit unclosedTodos match st =
     (case st of (results, calls) \<Rightarrow>
        if map_has results (m_todoNo match) then (results, calls)
        else
          let fileDiff = git_fileDiff w (m_matchedFile match) in
          (case find (\<lambda>t. ToDoNo t = m_todoNo match) unclosedTodos of
             None \<Rightarrow> (results, calls)
           | Some todo \<Rightarrow>
               (case quickAICheck cfg w calls fileDiff todo of
                  (Inl e, calls') \<Rightarrow> (results, calls')
                | (Inr aiResult, calls') \<Rightarrow>
                    if num_ge (qr_confidence aiResult) (PHASE2_CONFIDENCE_THRESHOLD cfg)
                    then
                      (map_set (m_todoNo match)
                         \<lparr>p_status = None,
                          p_reason = m_reason match @ js '' - '' @ qr_reason aiResult,
                          p_phase = PHASE2_AI,
                          p_commitHash = short_hash commit, p_commitMessage = first_line commit,
                          p_aiAnalysis =
                            Some \<lparr>analyzedAt = clock w, ai_confidence = qr_confidence aiResult,
                                  ai_reason = qr_reason aiResult, ai_model = AI_MODEL cfg\<rparr>\<rparr>
                         results,
                       calls')
                    else (results, calls'))))"

fun phase2_ai_loop ::
  "config \<Rightarrow> world \<Rightarrow> commit \<Rightarrow> todo list \<Rightarrow> fmatch list \<Rightarrow> results \<times> call list
     \<Rightarrow> results \<times> call list" where
  "phase2_ai_loop cfg w commit unclosedTodos [] st = st"
| "phase2_ai_loop cfg w commit unclosedTodos (match # phase2Matches) st =
     phase2_ai_loop cfg w commit unclosedTodos phase2Matches
       (phase2_ai_step cfg w commit unclosedTodos match st)"

fun phase2_plain_loop :: "commit \<Rightarrow> fmatch list \<Rightarrow> results \<Rightarrow> results" where
  "phase2_plain_loop commit [] results = results"
| "phase2_plain_loop commit (result # phase2Matches) results =
     (if \<not> map_has results (m_todoNo result)
      then
        phase2_plain_loop commit phase2Matches
          (map_set (m_todoNo result)
             \<lparr>p_status = None, p_reason = m_reason result, p_phase = PHASE2_PLAIN,
              p_commitHash = short_hash commit, p_commitMessage = first_line commit,
              p_aiAnalysis = None\<rparr>
             results)
      else phase2_plain_loop commit phase2Matches results)"

fun phase3_merge :: "config \<Rightarrow> world \<Rightarrow> commit \<Rightarrow> ai_result list \<Rightarrow> results \<Rightarrow> results" where
  "phase3_merge cfg w commit [] results = results"
| "phase3_merge cfg w commit (result # phase3Results) results =
     (if \<not> map_has results (a_todoNo result)
      then
        phase3_merge cfg w commit phase3Results
          (map_set (a_todoNo result)
             \<lparr>p_status = None, p_reason = a_reason result, p_phase = PHASE3,
              p_commitHash = short_hash commit, p_commitMessage = first_line commit,
              p_aiAnalysis =
                Some \<lparr>analyzedAt = clock w, ai_confidence = a_confidence result,
                      ai_reason = a_reason result, ai_model = AI_MODEL cfg\<rparr>\<rparr>
             results)
      else phase3_merge cfg w commit phase3Results results)"

text \<open>The three phases as \<open>main\<close> runs them, each from the results of the one before.\<close>

definition after_phase1 :: "commit \<Rightarrow> results" where
  "after_phase1 commit = phase1_merge commit (phase1_extractFromMessage (c_message commit)) []"

definition after_phase2 ::
  "config \<Rightarrow> world \<Rightarrow> commit \<Rightarrow> jsstr list \<Rightarrow> todo list \<Rightarrow> results \<Rightarrow> results \<times> call list" where
  "after_phase2 cfg w commit filteredFiles unclosedTodos results =
     (let phase2Matches = phase2_matchByFileName (minimatch w) filteredFiles unclosedTodos in
      if PHASE2_AI_ENABLED cfg \<and> OPENAI_API_KEY cfg
      then phase2_ai_loop cfg w commit unclosedTodos phase2Matches (results, [])
      else (phase2_plain_loop commit phase2Matches results, []))"

definition after_phase3 ::
  "config \<Rightarrow> world \<Rightarrow> commit \<Rightarrow> jsstr list \<Rightarrow> todo list \<Rightarrow> results \<times> call list
     \<Rightarrow> results \<times> call list" where
  "after_phase3 cfg w commit filteredFiles unclosedTodos st =
     (case st of (results, calls) \<Rightarrow>
        if AI_ANALYSIS_ENABLED cfg
        then
          let diff = git_commitDiff w in
          (case phase3_analyzeWithAI cfg w calls diff filteredFiles unclosedTodos of
             (phase3Results, calls') \<Rightarrow> (phase3_merge cfg w commit phase3Results results, calls'))
        else (results, calls))"

definition merge_phases ::
  "config \<Rightarrow> world \<Rightarrow> commit \<Rightarrow> jsstr list \<Rightarrow> todo list \<Rightarrow> results \<times> call list" where
  "merge_phases cfg w commit filteredFiles unclosedTodos =
     after_phase3 cfg w commit filteredFiles unclosedTodos
       (after_phase2 cfg w commit filteredFiles unclosedTodos (after_phase1 commit))"

section \<open>Persistence\<close>

text \<open>
  The ticket collection of the document store: the documents by their identifier, and
  for which identifiers a read or a write of the store fails with an exception.
\<close>

record store =
  docs :: "jsstr \<rightharpoonup> todo"
  read_fails :: "jsstr \<Rightarrow> bool"
  write_fails :: "jsstr \<Rightarrow> bool"

text \<open>
  The three judgement methods that a history entry can name ("Phase3 (AI)",
  "Phase1 (commit message)", "Phase2 (file match)") and the default reason.
\<close>

definition METHOD_PHASE3 :: jsstr where
  "METHOD_PHASE3 = js ''Phase3 (AI)''"

definition METHOD_PHASE1 :: jsstr where
  "METHOD_PHASE1 =
     js ''Phase1 ('' @ [0x30B3, 0x30DF, 0x30C3, 0x30C8, 0x30E1, 0x30C3, 0x30BB, 0x30FC, 0x30B8]
       @ js '')''"

definition METHOD_PHASE2 :: jsstr where
  "METHOD_PHASE2 = js ''Phase2 ('' @ [0x30D5, 0x30A1, 0x30A4, 0x30EB, 0x7167, 0x5408] @ js '')''"

definition DEFAULT_REASON :: jsstr where
  "DEFAULT_REASON = [0x30AF, 0x30ED, 0x30FC, 0x30BA, 0x5019, 0x88DC, 0x5224, 0x5B9A]"

text \<open>\<open>iso.split('T')[0]\<close>: the date of an ISO time stamp.\<close>

definition date_part :: "jsstr \<Rightarrow> jsstr" where
  "date_part stamp = takeWhile (\<lambda>c. c \<noteq> of_char CHR ''T'') stamp"

definition update_status :: "params \<Rightarrow> todo \<Rightarrow> todo" where
  "update_status params todo =
     (case p_status params of
        None \<Rightarrow> todo
      | Some s \<Rightarrow>
          if s = [] then todo
          else if s \<in> set [js ''closed'', js ''in_progress'', js ''review_pending'']
          then todo\<lparr>todo_status :=
                 (if s = js ''closed'' then STATUS_CLOSED
                  else if s = js ''in_progress'' then STATUS_IN_PROGRESS
                  else STATUS_REVIEW_PENDING)\<rparr>
          else todo)"

definition update_aiAnalysis :: "jsstr \<Rightarrow> params \<Rightarrow> todo \<Rightarrow> todo" where
  "update_aiAnalysis now params todo =
     (case p_aiAnalysis params of
        None \<Rightarrow> todo
      | Some a \<Rightarrow>
          todo\<lparr>aiAnalysis :=
            Some \<lparr>analyzedAt = or_else (analyzedAt a) now,
                  ai_confidence = or_zero (ai_confidence a),
                  ai_reason = or_else (ai_reason a) [],
                  ai_model = or_else (ai_model a) (js ''gpt-4o'')\<rparr>\<rparr>)"

definition historyEntry :: "jsstr \<Rightarrow> params \<Rightarrow> history_entry" where
  "historyEntry now params =
     \<lparr>h_datetime = now,
      h_reason = or_else (p_reason params) DEFAULT_REASON,
      h_commitHash = or_else (p_commitHash params) [],
      h_commitMessage = or_else (p_commitMessage params) [],
      h_method =
        (if p_aiAnalysis params \<noteq> None then METHOD_PHASE3
         else if p_commitHash params \<noteq> [] then METHOD_PHASE1
         else METHOD_PHASE2)\<rparr>"

text \<open>A missing history is initialised to the empty list, then the entry is pushed.\<close>

definition push_history :: "history_entry \<Rightarrow> todo \<Rightarrow> todo" where
  "push_history entry todo =
     (let todo' = (case history todo of None \<Rightarrow> todo\<lparr>history := Some []\<rparr> | Some h \<Rightarrow> todo)
      in todo'\<lparr>history := Some ((case history todo' of None \<Rightarrow> [] | Some h \<Rightarrow> h) @ [entry])\<rparr>)"

text \<open>
  \<open>markAsCloseCandidate\<close> reads the document, changes the copy it read and writes it back
  (a merging write of this copy, which holds every field that was read). \<open>now\<close> is the
  clock. Every exception is logged and thrown again.
\<close>

definition markAsCloseCandidate ::
  "jsstr \<Rightarrow> store \<Rightarrow> jsstr \<Rightarrow> params \<Rightarrow> error + store \<times> todo" where
  "markAsCloseCandidate now st todoNo params =
     (if read_fails st todoNo then Inl StoreError
      else
        (case docs st todoNo of
           None \<Rightarrow> Inl (TodoNotFound todoNo)
         | Some todo0 \<Rightarrow>
             let todo1 = todo0\<lparr>closeCandidate := Some (js ''ON'')\<rparr>;
                 todo2 = update_status params todo1;
                 todo3 = update_aiAnalysis now params todo2;
                 todo4 = push_history (historyEntry now params) todo3;
                 todo5 = (if p_status params = Some (js ''closed'')
                          then todo4\<lparr>closeDate := Some (date_part now)\<rparr> else todo4);
                 todo6 = todo5\<lparr>updateDate := Some (date_part now)\<rparr>
             in if write_fails st todoNo then Inl StoreError
                else Inr (st\<lparr>docs := (docs st)(todoNo \<mapsto> todo6)\<rparr>, todo6)))"

text \<open>The loop over the merged results, with the two counters.\<close>

record tally =
  t_store :: store
  successCount :: nat
  errorCount :: nat

definition persist_step :: "jsstr \<Rightarrow> jsstr \<times> params \<Rightarrow> tally \<Rightarrow> tally" where
  "persist_step now entry t =
     (case markAsCloseCandidate now (t_store t) (fst entry) (snd entry) of
        Inl e \<Rightarrow> t\<lparr>errorCount := errorCount t + 1\<rparr>
      | Inr r \<Rightarrow> t\<lparr>t_store := fst r, successCount := successCount t + 1\<rparr>)"

fun persist :: "jsstr \<Rightarrow> results \<Rightarrow> tally \<Rightarrow> tally" where
  "persist now [] t = t"
| "persist now (entry # rest) t = persist now rest (persist_step now entry t)"

section \<open>The auto-close run\<close>

text \<open>
  What a run of \<open>main\<close> leaves: the exit code of the process, the merged results, the
  calls of the model API in their order, and the store.
\<close>

record run_result =
  exit_code :: nat
  merged :: results
  model_calls :: "call list"
  final_store :: store

definition main :: "config \<Rightarrow> world \<Rightarrow> store \<Rightarrow> run_result" where
  "main cfg w st =
     (case getLatestCommit w of
        None \<Rightarrow> \<lparr>exit_code = 1, merged = [], model_calls = [], final_store = st\<rparr>
      | Some commit \<Rightarrow>
          let changedFiles = git_changedFiles w;
              filteredFiles = filterExcludedFiles changedFiles;
              unclosedTodos = getUnclosedTodos cfg w
          in
          if unclosedTodos = []
          then \<lparr>exit_code = 0, merged = [], model_calls = [], final_store = st\<rparr>
          else
            let r3 = merge_phases cfg w commit filteredFiles unclosedTodos in
            if fst r3 = []
            then \<lparr>exit_code = 0, merged = [], model_calls = snd r3, final_store = st\<rparr>
            else
              let t = persist (clock w) (fst r3) \<lparr>t_store = st, successCount = 0, errorCount = 0\<rparr>
              in \<lparr>exit_code = (if errorCount t > 0 then 1 else 0), merged = fst r3,
                  model_calls = snd r3, final_store = t_store t\<rparr>)"

section \<open>The minutes analyzer\<close>

definition MAX_FILE_SIZE :: nat where
  "MAX_FILE_SIZE = 50000"

text \<open>
  \<open>normalizeProjectName\<close>: trim, then the single smart quotes (U+2018, U+2019) become
  the apostrophe and the double ones (U+201C, U+201D) the double quote.
\<close>

definition normalizeProjectName :: "jsstr \<Rightarrow> jsstr" where
  "normalizeProjectName name =
     (if name = [] then []
      else map (\<lambda>c. if c = 0x201C \<or> c = 0x201D then 34 else c)
             (map (\<lambda>c. if c = 0x2018 \<or> c = 0x2019 then 39 else c) (trim name)))"

text \<open>
  A project document: its identifier in the store, and of its data the fields \<open>id\<close>
  (if it has one) and \<open>name\<close> (empty if it has none).
\<close>

record project_doc =
  doc_id :: jsstr
  data_id :: "jsstr option"
  data_name :: jsstr

record found_project =
  fp_id :: jsstr
  fp_name :: jsstr

record analysis =
  projectName :: jsstr
  an_issues :: "jsstr list"
  an_todos :: "jsstr list"

text \<open>
  What the world outside answers to the minutes analyzer: whether the API key is set,
  the model name, the file, the reply of the model to the content, whether the store
  can be initialised, the project documents, and the identifier that the store gives
  to an added record.
\<close>

record minutes_world =
  mw_api_key :: bool
  mw_model :: jsstr
  mw_file_exists :: bool
  mw_file_size :: nat
  mw_file_content :: jsstr
  mw_analyze :: "jsstr \<Rightarrow> analysis outcome"
  mw_firestore :: bool
  mw_projects :: "project_doc list outcome"
  mw_add :: "jsstr outcome"
  mw_clock :: jsstr

record options =
  o_file :: "jsstr option"
  o_projectId :: jsstr
  o_commit :: jsstr
  o_pushedBy :: jsstr

datatype minutes_error = FileMissing | FileTooBig | AnalysisFailed | FirestoreFailed

definition readFile :: "minutes_world \<Rightarrow> minutes_error + jsstr" where
  "readFile mw =
     (if \<not> mw_file_exists mw then Inl FileMissing
      else if mw_file_size mw > MAX_FILE_SIZE then Inl FileTooBig
      else Inr (mw_file_content mw))"

text \<open>The loop of \<open>findProjectByName\<close> over the documents, left at the first equal name.\<close>

fun find_project_loop :: "jsstr \<Rightarrow> project_doc list \<Rightarrow> project_doc option" where
  "find_project_loop normalizedSearchName [] = None"
| "find_project_loop normalizedSearchName (doc # projectDocs) =
     (if normalizeProjectName (or_else (data_name doc) []) = normalizedSearchName then Some doc
      else find_project_loop normalizedSearchName projectDocs)"

text \<open>
  \<open>findProjectByName\<close>: the initialisation of the store is outside the \<open>try\<close>, the
  query inside. The project found is the data of the document under its identifier,
  with the \<open>id\<close> of the data in front if the data has one.
\<close>

definition findProjectByName :: "minutes_world \<Rightarrow> jsstr \<Rightarrow> minutes_error + found_project option" where
  "findProjectByName mw name =
     (if name = [] \<or> trim name = [] then Inr None
      else if \<not> mw_firestore mw then Inl FirestoreFailed
      else
        (case mw_projects mw of
           Throws \<Rightarrow> Inr None
         | Returns projectDocs \<Rightarrow>
             (case find_project_loop (normalizeProjectName name) projectDocs of
                None \<Rightarrow> Inr None
              | Some doc \<Rightarrow>
                  Inr (Some \<lparr>fp_id = (case data_id doc of None \<Rightarrow> doc_id doc | Some i \<Rightarrow> i),
                             fp_name = data_name doc\<rparr>))))"

record pending =
  minutesFile :: jsstr
  minutesFilePath :: jsstr
  pm_projectId :: jsstr
  projectNameFromMinutes :: jsstr
  pm_issues :: "jsstr list"
  pm_todos :: "jsstr list"
  pm_commit :: jsstr
  pm_pushedBy :: jsstr
  pm_analyzedAt :: jsstr
  pm_model :: jsstr
  pm_status :: jsstr
  createdAt :: jsstr

record metadata =
  md_projectId :: jsstr
  md_projectNameFromMinutes :: jsstr
  md_commit :: jsstr
  md_pushedBy :: jsstr

text \<open>\<open>path.basename\<close> of a path with \<open>/\<close> as its separator (code unit 47).\<close>

definition basename :: "jsstr \<Rightarrow> jsstr" where
  "basename p = rev (takeWhile (\<lambda>c. c \<noteq> 47) (dropWhile (\<lambda>c. c = 47) (rev p)))"

text \<open>
  \<open>savePendingMinutes\<close> adds one record to the collection of pending minutes (given
  here with the identifiers of its records) and returns the new identifier.
\<close>

definition savePendingMinutes ::
  "minutes_world \<Rightarrow> (jsstr \<times> pending) list \<Rightarrow> jsstr \<Rightarrow> analysis \<Rightarrow> metadata
     \<Rightarrow> minutes_error + (jsstr \<times> pending) list \<times> jsstr" where
  "savePendingMinutes mw pendings file analysisResult md =
     (if \<not> mw_firestore mw then Inl FirestoreFailed
      else
        let pendingData =
              \<lparr>minutesFile = basename file, minutesFilePath = file,
               pm_projectId = or_else (md_projectId md) [],
               projectNameFromMinutes = or_else (md_projectNameFromMinutes md) [],
               pm_issues = an_issues analysisResult, pm_todos = an_todos analysisResult,
               pm_commit = or_else (md_commit md) [], pm_pushedBy = or_else (md_pushedBy md) [],
               pm_analyzedAt = mw_clock mw, pm_model = mw_model mw,
               pm_status = js ''pending'', createdAt = mw_clock mw\<rparr>
        in
        (case mw_add mw of
           Throws \<Rightarrow> Inl FirestoreFailed
         | Returns docRef \<Rightarrow> Inr (pendings @ [(docRef, pendingData)], docRef)))"

text \<open>Step 3 of \<open>main\<close>: the project identifier of the record.\<close>

definition resolveProjectId :: "minutes_world \<Rightarrow> options \<Rightarrow> jsstr \<Rightarrow> minutes_error + jsstr" where
  "resolveProjectId mw opts name =
     (let resolvedProjectId = o_projectId opts in
      if resolvedProjectId = [] \<and> name \<noteq> []
      then
        (case findProjectByName mw name of
           Inl e \<Rightarrow> Inl e
         | Inr None \<Rightarrow> Inr resolvedProjectId
         | Inr (Some project) \<Rightarrow> Inr (fp_id project))
      else Inr resolvedProjectId)"

text \<open>
  \<open>main\<close> of the minutes analyzer: the exit code and the collection of pending
  minutes. Every exception after the two checks of the arguments ends in exit code 1.
\<close>

definition minutes_main ::
  "options \<Rightarrow> minutes_world \<Rightarrow> (jsstr \<times> pending) list \<Rightarrow> nat \<times> (jsstr \<times> pending) list" where
  "minutes_main opts mw pendings =
     (case o_file opts of
        None \<Rightarrow> (1, pendings)
      | Some file \<Rightarrow>
          if file = [] then (1, pendings)
          else if \<not> mw_api_key mw then (1, pendings)
          else
            (case readFile mw of
               Inl e \<Rightarrow> (1, pendings)
             | Inr content \<Rightarrow>
                 (case mw_analyze mw content of
                    Throws \<Rightarrow> (1, pendings)
                  | Returns analysisResult \<Rightarrow>
                      (case resolveProjectId mw opts (projectName analysisResult) of
                         Inl e \<Rightarrow> (1, pendings)
                       | Inr resolvedProjectId \<Rightarrow>
                           (case savePendingMinutes mw pendings file analysisResult
                                   \<lparr>md_projectId = or_else resolvedProjectId [],
                                    md_projectNameFromMinutes =
                                      or_else (projectName analysisResult) [],
                                    md_commit = o_commit opts, md_pushedBy = o_pushedBy opts\<rparr> of
                              Inl e \<Rightarrow> (1, pendings)
                            | Inr r \<Rightarrow> (0, fst r))))))"

section \<open>Example inputs\<close>

text \<open>
  A ticket with a number and an artifact file name, a configuration with the model API
  enabled (the argument says whether Phase 2 uses it), a world with one changed file
  \<open>src/foo.ts\<close>, a model that gives every ticket the confidence 0.9 and a glob matcher
  that accepts nothing, and a store with the given tickets.
\<close>

definition ex_todo :: "jsstr \<Rightarrow> jsstr option \<Rightarrow> todo" where
  "ex_todo no target =
     \<lparr>ToDoNo = no, ToDoTitle = js ''task'', ToDoContent = [], targetFile = target,
      todo_status = [], closeCandidate = None, aiAnalysis = None, history = None,
      closeDate = None, updateDate = None\<rparr>"

definition ex_cfg :: "bool \<Rightarrow> config" where
  "ex_cfg p2 =
     \<lparr>AI_ANALYSIS_ENABLED = True, AI_MODEL = js ''gpt-4o'',
      AI_CONFIDENCE_THRESHOLD = Num (7 / 10), PHASE2_CONFIDENCE_THRESHOLD = Num (1 / 2),
      PHASE2_AI_ENABLED = p2, OPENAI_API_KEY = True, REPOSITORY = None\<rparr>"

definition ex_world :: "jsstr \<Rightarrow> jsstr \<Rightarrow> jsstr \<Rightarrow> todo list outcome \<Rightarrow> world" where
  "ex_world msg commitDiff fileDiff todos =
     \<lparr>git_hash = Some (js ''0123456789abcdef''), git_message = Some msg,
      git_changedFiles = [js ''src/foo.ts''], git_commitDiff = commitDiff,
      git_fileDiff = (\<lambda>f. fileDiff), clock = js ''2025-01-01T00:00:00.000Z'',
      minimatch = (\<lambda>f p. False),
      model_quick = (\<lambda>cs d t. Returns \<lparr>q_confidence = Num (9 / 10), q_reason = js ''ok''\<rparr>),
      model_analyze =
        (\<lambda>cs d ts. Returns (map (\<lambda>t. \<lparr>a_todoNo = ToDoNo t, a_reason = js ''ok'',
                                          a_confidence = Num (9 / 10)\<rparr>) ts)),
      query_all_todos = todos, query_projects = (\<lambda>r. Throws), query_todos_of = (\<lambda>p. Throws)\<rparr>"

definition ex_store :: "todo list \<Rightarrow> store" where
  "ex_store ts =
     \<lparr>docs = map_of (map (\<lambda>t. (ToDoNo t, t)) ts), read_fails = (\<lambda>k. False),
      write_fails = (\<lambda>k. False)\<rparr>"

text \<open>
  For the minutes analyzer: a world in which everything works, the model extracts the
  given project name and the store holds the given project documents; and the options
  with a file and the given \<open>--projectId\<close>.
\<close>

definition ex_minutes_world :: "jsstr \<Rightarrow> project_doc list \<Rightarrow> minutes_world" where
  "ex_minutes_world name stored =
     \<lparr>mw_api_key = True, mw_model = js ''gpt-4o'', mw_file_exists = True, mw_file_size = 100,
      mw_file_content = js ''minutes'',
      mw_analyze = (\<lambda>content. Returns \<lparr>projectName = name, an_issues = [], an_todos = []\<rparr>),
      mw_firestore = True, mw_projects = Returns stored, mw_add = Returns (js ''doc1''),
      mw_clock = js ''2025-01-01T00:00:00.000Z''\<rparr>"

definition ex_options :: "jsstr \<Rightarrow> options" where
  "ex_options pid = \<lparr>o_file = Some (js ''minutes/a.md''), o_projectId = pid, o_commit = [], o_pushedBy = []\<rparr>"

section \<open>Notions used in the statements\<close>

text \<open>
  \<open>extends P r r'\<close>: the map \<open>r'\<close> is \<open>r\<close> with entries added behind it, each added
  value satisfies \<open>P\<close>, and no key occurs twice. So no entry of \<open>r\<close> was replaced and
  none of its keys was added again.
\<close>

definition extends :: "(params \<Rightarrow> bool) \<Rightarrow> results \<Rightarrow> results \<Rightarrow> bool" where
  "extends P r r' \<longleftrightarrow>
     (\<exists>added. r' = r @ added \<and> list_all (\<lambda>e. P (snd e)) added \<and> distinct (map fst r'))"

text \<open>
  The calls that Phase 2 may make when the tickets in \<open>K\<close> have a result already: the
  first 3000 code units of the diff of some file, for a ticket outside \<open>K\<close>.
\<close>

definition quick_calls :: "world \<Rightarrow> jsstr set \<Rightarrow> call set" where
  "quick_calls w K = {QuickCall (take 3000 (git_fileDiff w f)) t | f t. ToDoNo t \<notin> K}"

text \<open>
  The language of a pattern: the texts that it matches as a whole. \<open>star L\<close> is the set
  of concatenations of texts of \<open>L\<close>.
\<close>

inductive_set star :: "jsstr set \<Rightarrow> jsstr set" for L :: "jsstr set" where
  star_Nil: "[] \<in> star L"
| star_app: "x \<in> L \<Longrightarrow> y \<in> star L \<Longrightarrow> x @ y \<in> star L"

fun lang :: "re \<Rightarrow> jsstr set" where
  "lang Eps = {[]}"
| "lang (Atom p) = {[c] | c. p c}"
| "lang (Seq a b) = {x @ y | x y. x \<in> lang a \<and> y \<in> lang b}"
| "lang (Alt a b) = lang a \<union> lang b"
| "lang (Opt a) = insert [] (lang a)"
| "lang (Star a) = star (lang a)"

text \<open>The text \<open>Closes: TODO-12\<close>.\<close>

definition K12 :: jsstr where
  "K12 = js ''Closes: TODO-12''"

text \<open>
  \<open>digit_follows s\<close>: the text \<open>s\<close> starts with a digit.
\<close>

definition digit_follows :: "jsstr \<Rightarrow> bool" where
  "digit_follows post \<longleftrightarrow> (case post of [] \<Rightarrow> False | c # cs \<Rightarrow> is_digit c)"

text \<open>
  \<open>follows_verb message x\<close>: the message refers to the ticket \<open>x\<close>. That is, \<open>x\<close> is
  \<open>TODO-\<close> and a non-empty run of digits, and in the message these digits stand right
  behind a text that the part of \<open>COMMIT_PATTERN\<close> before its group matches (a verb, the
  colon, optional white space, \<open>TODO-\<close>), and no further digit follows them.
\<close>

definition follows_verb :: "jsstr \<Rightarrow> jsstr \<Rightarrow> bool" where
  "follows_verb message x \<longleftrightarrow>
     (\<exists>pre m d post. x = js ''TODO-'' @ d \<and> d \<noteq> [] \<and> list_all is_digit d \<and> \<not> digit_follows post
        \<and> m \<in> lang COMMIT_PREFIX \<and> message = pre @ m @ d @ post)"

text \<open>
  Modelled from the spec: the glob matcher of the package \<open>minimatch\<close>, which the script
  imports and which is not part of the sources. "Glob semantics" is taken as: \<open>*\<close> (code
  unit 42) stands for any run of code units without a slash (47), \<open>?\<close> (63) for one
  code unit that is not a slash, every other code unit for itself. The first argument is
  the pattern.
\<close>

fun glob :: "jsstr \<Rightarrow> jsstr \<Rightarrow> bool" where
  "glob [] [] = True"
| "glob [] (c # cs) = False"
| "glob (p # ps) [] = (p = 42 \<and> glob ps [])"
| "glob (p # ps) (c # cs) =
     (if p = 42 then glob ps (c # cs) \<or> (c \<noteq> 47 \<and> glob (p # ps) cs)
      else if p = 63 then c \<noteq> 47 \<and> glob ps cs
      else c = p \<and> glob ps cs)"

text \<open>
  Phase 2 as the specification words it: a pattern with a wildcard is matched by the glob
  matcher, any other pattern matches a file when one of the two is contained in the
  other; a ticket with a pattern that is not blank is reported with the first changed
  file that matches.
\<close>

definition is_substring :: "jsstr \<Rightarrow> jsstr \<Rightarrow> bool" where
  "is_substring a b \<longleftrightarrow> (\<exists>pre post. b = pre @ a @ post)"

definition spec_match :: "(jsstr \<Rightarrow> jsstr \<Rightarrow> bool) \<Rightarrow> jsstr \<Rightarrow> jsstr \<Rightarrow> bool" where
  "spec_match mm pattern file =
     (if 42 \<in> set pattern \<or> 63 \<in> set pattern then mm file pattern
      else is_substring pattern file \<or> is_substring file pattern)"

definition phase2_spec :: "(jsstr \<Rightarrow> jsstr \<Rightarrow> bool) \<Rightarrow> jsstr list \<Rightarrow> todo list \<Rightarrow> fmatch list" where
  "phase2_spec mm files todos =
     List.map_filter
       (\<lambda>todo. case targetFile todo of
                 None \<Rightarrow> None
               | Some pattern \<Rightarrow>
                   if trim pattern = [] then None
                   else map_option
                          (\<lambda>file. \<lparr>m_todoNo = ToDoNo todo, m_reason = match_reason pattern file,
                                    m_matchedFile = file\<rparr>)
                          (find (spec_match mm pattern) files))
       todos"

section \<open>The matcher and the language of a pattern\<close>

lemma matches_Star_cases:
  "r \<in> set (matches (Star a) s) \<longleftrightarrow>
     r = s \<or> (\<exists>x \<in> set (matches a s). length x < length s \<and> r \<in> set (matches (Star a) x))"
  by (subst matches.simps(6)) auto

lemma matches_sound: "r \<in> set (matches e s) \<Longrightarrow> \<exists>m. m \<in> lang e \<and> s = m @ r"
proof (induction e s arbitrary: r rule: matches.induct)
  case (1 s)
  then show ?case by simp
next
  case (2 p s)
  then show ?case by (cases s) (auto split: if_splits)
next
  case (3 a b s)
  from "3.prems" obtain x where x: "x \<in> set (matches a s)" "r \<in> set (matches b x)" by auto
  from "3.IH"(1) [OF x(1)] obtain m1 where m1: "m1 \<in> lang a" "s = m1 @ x" by blast
  from "3.IH"(2) [OF x] obtain m2 where m2: "m2 \<in> lang b" "x = m2 @ r" by blast
  have "m1 @ m2 \<in> lang (Seq a b)" using m1 m2 by auto
  moreover have "s = (m1 @ m2) @ r" using m1 m2 by simp
  ultimately show ?case by blast
next
  case (4 a b s)
  then show ?case by fastforce
next
  case (5 a s)
  then show ?case by fastforce
next
  case (6 a s)
  from "6.prems" consider "r = s"
    | x where "x \<in> set (matches a s)" "length x < length s" "r \<in> set (matches (Star a) x)"
    using matches_Star_cases [of r a s] by blast
  then show ?case
  proof cases
    case 1
    then show ?thesis by (auto intro: star_Nil)
  next
    case 2
    from "6.IH"(1) [OF 2(1)] obtain m1 where m1: "m1 \<in> lang a" "s = m1 @ x" by blast
    have "x \<in> set (filter (\<lambda>r. length r < length s) (matches a s))" using 2 by simp
    from "6.IH"(2) [OF this 2(3)] obtain m2 where m2: "m2 \<in> lang (Star a)" "x = m2 @ r" by blast
    have "m1 @ m2 \<in> lang (Star a)" using m1 m2 by (auto intro: star_app)
    moreover have "s = (m1 @ m2) @ r" using m1 m2 by simp
    ultimately show ?thesis by blast
  qed
qed

lemma matches_complete: "m \<in> lang e \<Longrightarrow> r \<in> set (matches e (m @ r))"
proof (induction e arbitrary: m r)
  case Eps
  then show ?case by simp
next
  case (Atom p)
  then show ?case by auto
next
  case (Seq a b)
  from Seq.prems obtain x y where xy: "m = x @ y" "x \<in> lang a" "y \<in> lang b" by auto
  have 1: "y @ r \<in> set (matches a (x @ (y @ r)))" using Seq.IH(1) [OF xy(2)] .
  have 2: "r \<in> set (matches b (y @ r))" using Seq.IH(2) [OF xy(3)] .
  show ?case using 1 2 xy(1) by auto
next
  case (Alt a b)
  then show ?case by auto
next
  case (Opt a)
  show ?case
  proof (cases "m = []")
    case True
    then show ?thesis by simp
  next
    case False
    with Opt.prems have "m \<in> lang a" by simp
    from Opt.IH [OF this, of r] False show ?thesis by simp
  qed
next
  case (Star a)
  from Star.prems have "m \<in> star (lang a)" by simp
  then show ?case
  proof (induction arbitrary: r)
    case star_Nil
    show ?case by (subst matches_Star_cases) simp
  next
    case (star_app x y)
    show ?case
    proof (cases "x = []")
      case True
      then show ?thesis using star_app.IH by simp
    next
      case False
      have 1: "y @ r \<in> set (matches a (x @ (y @ r)))" using Star.IH [OF star_app.hyps(1)] .
      have 2: "length (y @ r) < length (x @ (y @ r))" using False by simp
      have 3: "r \<in> set (matches (Star a) (y @ r))" using star_app.IH .
      show ?thesis
        using 1 2 3 matches_Star_cases [of r a "(x @ y) @ r"] by auto
    qed
  qed
qed

lemma matches_nonempty_iff: "matches e s \<noteq> [] \<longleftrightarrow> (\<exists>m post. m \<in> lang e \<and> s = m @ post)"
proof
  assume "matches e s \<noteq> []"
  then obtain r where "r \<in> set (matches e s)" by (cases "matches e s") auto
  from matches_sound [OF this] show "\<exists>m post. m \<in> lang e \<and> s = m @ post" by blast
next
  assume "\<exists>m post. m \<in> lang e \<and> s = m @ post"
  then obtain m post where "m \<in> lang e" "s = m @ post" by blast
  with matches_complete [of m e post] show "matches e s \<noteq> []" by auto
qed

lemma re_test_iff: "re_test e s \<longleftrightarrow> (\<exists>pre m post. m \<in> lang e \<and> s = pre @ m @ post)"
proof (induction s)
  case Nil
  then show ?case by (auto simp: matches_nonempty_iff)
next
  case (Cons c cs)
  show ?case
  proof
    assume "re_test e (c # cs)"
    then consider "matches e (c # cs) \<noteq> []" | "re_test e cs" by auto
    then show "\<exists>pre m post. m \<in> lang e \<and> c # cs = pre @ m @ post"
    proof cases
      case 1
      then obtain m post where "m \<in> lang e" "c # cs = [] @ m @ post"
        by (auto simp: matches_nonempty_iff)
      then show ?thesis by blast
    next
      case 2
      with Cons obtain pre m post where "m \<in> lang e" "cs = pre @ m @ post" by blast
      then have "m \<in> lang e" "c # cs = (c # pre) @ m @ post" by simp_all
      then show ?thesis by blast
    qed
  next
    assume "\<exists>pre m post. m \<in> lang e \<and> c # cs = pre @ m @ post"
    then obtain pre m post where pm: "m \<in> lang e" "c # cs = pre @ m @ post" by blast
    show "re_test e (c # cs)"
    proof (cases pre)
      case Nil
      with pm have "matches e (c # cs) \<noteq> []" by (auto simp: matches_nonempty_iff)
      then show ?thesis by simp
    next
      case (Cons x xs)
      with pm have "cs = xs @ m @ post" by simp
      with pm(1) Cons.IH have "re_test e cs" by blast
      then show ?thesis by simp
    qed
  qed
qed

section \<open>The merge: first writer wins\<close>

lemma map_set_new: "\<not> map_has m k \<Longrightarrow> map_set k v m = m @ [(k, v)]"
  by (induction m) (auto simp: map_has_def)

lemma distinct_dedup: "distinct seen \<Longrightarrow> distinct (dedup seen xs)"
  by (induction xs arbitrary: seen) auto

lemma set_dedup: "set (dedup seen xs) = set seen \<union> set xs"
  by (induction xs arbitrary: seen) auto

lemma distinct_phase1: "distinct (phase1_extractFromMessage message)"
  by (simp add: phase1_extractFromMessage_def distinct_dedup)

lemma phase1_merge_eq:
  "distinct ks \<Longrightarrow> set ks \<inter> set (map fst results) = {} \<Longrightarrow>
   phase1_merge commit ks results = results @ map (\<lambda>k. (k, phase1_result commit)) ks"
proof (induction ks arbitrary: results)
  case Nil
  then show ?case by simp
next
  case (Cons k ks)
  have new: "map_set k (phase1_result commit) results = results @ [(k, phase1_result commit)]"
    using Cons.prems by (intro map_set_new) (auto simp: map_has_def)
  have "phase1_merge commit ks (results @ [(k, phase1_result commit)])
      = (results @ [(k, phase1_result commit)]) @ map (\<lambda>k. (k, phase1_result commit)) ks"
    using Cons.prems by (intro Cons.IH) auto
  then show ?case using new by simp
qed

lemma after_phase1_eq:
  "after_phase1 commit = map (\<lambda>k. (k, phase1_result commit)) (phase1_extractFromMessage (c_message commit))"
  by (simp add: after_phase1_def phase1_merge_eq distinct_phase1)

lemma extends_refl: "distinct (map fst r) \<Longrightarrow> extends P r r"
  by (auto simp: extends_def)

lemma extends_trans: "extends P a b \<Longrightarrow> extends P b c \<Longrightarrow> extends P a c"
  by (auto simp: extends_def)

lemma extends_set: "distinct (map fst r) \<Longrightarrow> \<not> map_has r k \<Longrightarrow> P v \<Longrightarrow> extends P r (map_set k v r)"
  by (auto simp: extends_def map_set_new map_has_def)

lemma phase2_ai_step_extends:
  "distinct (map fst r) \<Longrightarrow> extends (\<lambda>v. p_phase v = PHASE2_AI) r (fst (phase2_ai_step cfg w commit todos m (r, c)))"
  by (auto simp: phase2_ai_step_def Let_def extends_refl extends_set split: option.splits prod.splits sum.splits)

lemma extends_distinct: "extends P r r' \<Longrightarrow> distinct (map fst r')"
  by (auto simp: extends_def)

lemma phase2_ai_loop_extends:
  "distinct (map fst (fst st)) \<Longrightarrow> extends (\<lambda>v. p_phase v = PHASE2_AI) (fst st) (fst (phase2_ai_loop cfg w commit todos ms st))"
proof (induction ms arbitrary: st)
  case Nil
  then show ?case by (simp add: extends_refl)
next
  case (Cons m ms)
  obtain r c where st: "st = (r, c)" by (cases st)
  have 1: "extends (\<lambda>v. p_phase v = PHASE2_AI) r (fst (phase2_ai_step cfg w commit todos m (r, c)))"
    using Cons.prems st by (simp add: phase2_ai_step_extends)
  have 2: "extends (\<lambda>v. p_phase v = PHASE2_AI) (fst (phase2_ai_step cfg w commit todos m (r, c)))
     (fst (phase2_ai_loop cfg w commit todos ms (phase2_ai_step cfg w commit todos m (r, c))))"
    using 1 by (intro Cons.IH) (rule extends_distinct)
  show ?case using extends_trans [OF 1 2] st by simp
qed

lemma phase2_plain_loop_extends:
  "distinct (map fst r) \<Longrightarrow> extends (\<lambda>v. p_phase v = PHASE2_PLAIN) r (phase2_plain_loop commit ms r)"
proof (induction ms arbitrary: r)
  case Nil
  then show ?case by (simp add: extends_refl)
next
  case (Cons m ms)
  show ?case
  proof (cases "map_has r (m_todoNo m)")
    case True
    then show ?thesis using Cons by simp
  next
    case False
    let ?v = "\<lparr>p_status = None, p_reason = m_reason m, p_phase = PHASE2_PLAIN,
              p_commitHash = short_hash commit, p_commitMessage = first_line commit,
              p_aiAnalysis = None\<rparr>"
    have 1: "extends (\<lambda>v. p_phase v = PHASE2_PLAIN) r (map_set (m_todoNo m) ?v r)"
      using Cons.prems False by (intro extends_set) auto
    have 2: "extends (\<lambda>v. p_phase v = PHASE2_PLAIN) (map_set (m_todoNo m) ?v r) (phase2_plain_loop commit ms (map_set (m_todoNo m) ?v r))"
      using 1 by (intro Cons.IH) (rule extends_distinct)
    show ?thesis using extends_trans [OF 1 2] False by simp
  qed
qed

lemma phase3_merge_extends:
  "distinct (map fst r) \<Longrightarrow> extends (\<lambda>v. p_phase v = PHASE3) r (phase3_merge cfg w commit rs r)"
proof (induction rs arbitrary: r)
  case Nil
  then show ?case by (simp add: extends_refl)
next
  case (Cons m ms)
  show ?case
  proof (cases "map_has r (a_todoNo m)")
    case True
    then show ?thesis using Cons by simp
  next
    case False
    let ?v = "\<lparr>p_status = None, p_reason = a_reason m, p_phase = PHASE3,
              p_commitHash = short_hash commit, p_commitMessage = first_line commit,
              p_aiAnalysis =
                Some \<lparr>analyzedAt = clock w, ai_confidence = a_confidence m,
                      ai_reason = a_reason m, ai_model = AI_MODEL cfg\<rparr>\<rparr>"
    have 1: "extends (\<lambda>v. p_phase v = PHASE3) r (map_set (a_todoNo m) ?v r)"
      using Cons.prems False by (intro extends_set) auto
    have 2: "extends (\<lambda>v. p_phase v = PHASE3) (map_set (a_todoNo m) ?v r) (phase3_merge cfg w commit ms (map_set (a_todoNo m) ?v r))"
      using 1 by (intro Cons.IH) (rule extends_distinct)
    show ?thesis using extends_trans [OF 1 2] False by simp
  qed
qed

lemma extends_mono: "extends P r r' \<Longrightarrow> (\<And>v. P v \<Longrightarrow> Q v) \<Longrightarrow> extends Q r r'"
  by (auto simp: extends_def list_all_iff)

lemma after_phase2_extends:
  assumes "distinct (map fst r)"
  shows "extends (\<lambda>v. p_phase v = PHASE2_AI \<or> p_phase v = PHASE2_PLAIN) r (fst (after_phase2 cfg w commit files todos r))"
proof (cases "PHASE2_AI_ENABLED cfg \<and> OPENAI_API_KEY cfg")
  case True
  then show ?thesis
    using extends_mono [OF phase2_ai_loop_extends [of "(r, [])" cfg w commit todos], of "\<lambda>v. p_phase v = PHASE2_AI \<or> p_phase v = PHASE2_PLAIN"] assms
    by (simp add: after_phase2_def Let_def)
next
  case False
  then show ?thesis
    using extends_mono [OF phase2_plain_loop_extends [of r commit], of "\<lambda>v. p_phase v = PHASE2_AI \<or> p_phase v = PHASE2_PLAIN"] assms
    by (auto simp: after_phase2_def Let_def)
qed

lemma after_phase3_extends:
  "distinct (map fst (fst st)) \<Longrightarrow> extends (\<lambda>v. p_phase v = PHASE3) (fst st) (fst (after_phase3 cfg w commit files todos st))"
  using phase3_merge_extends [of "fst st" cfg w commit]
  by (auto simp: after_phase3_def Let_def extends_refl split: prod.splits)

lemma keys_map_set: "fst ` set (map_set k v m) = insert k (fst ` set m)"
  by (induction m) (force split: if_splits)+

lemma find_holds: "find P xs = Some x \<Longrightarrow> P x"
  by (induction xs) (auto split: if_splits)

lemma step_calls:
  "K \<subseteq> set (map fst r) \<Longrightarrow>
   set (snd (phase2_ai_step cfg w commit todos m (r, c))) \<subseteq> set c \<union> quick_calls w K"
  by (auto simp: phase2_ai_step_def quickAICheck_def Let_def map_has_def quick_calls_def
      split: option.splits prod.splits sum.splits if_splits outcome.splits dest!: find_holds)

lemma step_keys:
  "set (map fst r) \<subseteq> set (map fst (fst (phase2_ai_step cfg w commit todos m (r, c))))"
  by (auto simp: phase2_ai_step_def Let_def keys_map_set split: option.splits prod.splits sum.splits)

lemma loop_calls:
  "K \<subseteq> set (map fst (fst st)) \<Longrightarrow>
   set (snd (phase2_ai_loop cfg w commit todos ms st)) \<subseteq> set (snd st) \<union> quick_calls w K"
proof (induction ms arbitrary: st)
  case Nil
  then show ?case by simp
next
  case (Cons m ms)
  obtain r c where st: "st = (r, c)" by (cases st)
  let ?st' = "phase2_ai_step cfg w commit todos m (r, c)"
  have k: "K \<subseteq> set (map fst (fst ?st'))"
    using Cons.prems st step_keys [of r cfg w commit todos m c] by auto
  have 1: "set (snd ?st') \<subseteq> set c \<union> quick_calls w K"
    using Cons.prems st by (intro step_calls) simp
  have 2: "set (snd (phase2_ai_loop cfg w commit todos ms ?st')) \<subseteq> set (snd ?st') \<union> quick_calls w K"
    using k by (rule Cons.IH)
  show ?case using 1 2 st by auto
qed

lemma after_phase2_calls:
  "K \<subseteq> set (map fst r) \<Longrightarrow> set (snd (after_phase2 cfg w commit files todos r)) \<subseteq> quick_calls w K"
  using loop_calls [of K "(r, [])" cfg w commit todos]
  by (auto simp: after_phase2_def Let_def)

lemma phase3_calls_cases:
  "snd (phase3_analyzeWithAI cfg w calls diff files todos) = calls \<or>
   (\<not> detectSecrets diff \<and> snd (phase3_analyzeWithAI cfg w calls diff files todos) = calls @ [AnalyzeCall (take MAX_DIFF_SIZE diff) todos])"
  by (auto simp: phase3_analyzeWithAI_def sanitizeDiff_def analyzeWithAI_def Let_def split: outcome.splits)

lemma after_phase3_calls:
  "set (snd (after_phase3 cfg w commit files todos st)) \<subseteq> set (snd st) \<union> {AnalyzeCall (take MAX_DIFF_SIZE (git_commitDiff w)) todos}"
  using phase3_calls_cases [of cfg w "snd st" "git_commitDiff w" files todos]
  by (auto simp: after_phase3_def Let_def split: prod.splits)

lemma merge_phases_calls:
  "K \<subseteq> set (phase1_extractFromMessage (c_message commit)) \<Longrightarrow>
   set (snd (merge_phases cfg w commit files todos)) \<subseteq> quick_calls w K \<union> {AnalyzeCall (take MAX_DIFF_SIZE (git_commitDiff w)) todos}"
proof -
  assume K: "K \<subseteq> set (phase1_extractFromMessage (c_message commit))"
  have "K \<subseteq> set (map fst (after_phase1 commit))"
    using K by (simp add: after_phase1_eq comp_def)
  from after_phase2_calls [OF this, of cfg w commit files todos]
    after_phase3_calls [of cfg w commit files todos "after_phase2 cfg w commit files todos (after_phase1 commit)"]
  show ?thesis by (auto simp: merge_phases_def)
qed

lemma main_calls:
  "set (model_calls (main cfg w st)) = {} \<or>
   (\<exists>commit. getLatestCommit w = Some commit \<and> model_calls (main cfg w st) = snd (merge_phases cfg w commit (filterExcludedFiles (git_changedFiles w)) (getUnclosedTodos cfg w)))"
  by (auto simp: main_def Let_def split: option.splits)

section \<open>Precedence of Phase 1\<close>

lemma extends_members:
  assumes "extends P r r'" and "(k, v) \<in> set r"
  shows "map_of r' k = Some v"
proof -
  from assms(1) obtain added where r': "r' = r @ added" and d: "distinct (map fst r')"
    by (auto simp: extends_def)
  from d r' have "distinct (map fst r)" by simp
  with assms(2) have "map_of r k = Some v" by simp
  then show ?thesis by (simp add: r' map_add_Some_iff)
qed

lemma main_merged:
  assumes "getLatestCommit w = Some commit" and "getUnclosedTodos cfg w \<noteq> []"
    and "fst (merge_phases cfg w commit (filterExcludedFiles (git_changedFiles w)) (getUnclosedTodos cfg w)) \<noteq> []"
  shows "merged (main cfg w st) = fst (merge_phases cfg w commit (filterExcludedFiles (git_changedFiles w)) (getUnclosedTodos cfg w))"
    and "model_calls (main cfg w st) = snd (merge_phases cfg w commit (filterExcludedFiles (git_changedFiles w)) (getUnclosedTodos cfg w))"
  using assms by (simp_all add: main_def Let_def)

text \<open>
  Claim C1. For a ticket number that Phase 1 extracts from the commit message: the
  results after Phase 2 are those of Phase 1 with entries added behind them, the results
  after Phase 3 are those after Phase 2 with entries added behind them, no key occurs
  twice in the final map, the entries added by Phase 2 carry a Phase 2 name and those
  added by Phase 3 the Phase 3 name, the ticket still maps to the value that Phase 1
  stored, and Phase 2 makes no model call for the ticket. In a run of \<open>main\<close> that gets
  past the query of the open tickets, this map is the one that is persisted.
\<close>

theorem phase1_first_writer_wins:
  assumes "todoNo \<in> set (phase1_extractFromMessage (c_message commit))"
  shows "\<exists>add2 add3.
      fst (after_phase2 cfg w commit files todos (after_phase1 commit)) = after_phase1 commit @ add2
    \<and> fst (merge_phases cfg w commit files todos) = after_phase1 commit @ add2 @ add3
    \<and> distinct (map fst (after_phase1 commit @ add2 @ add3))
    \<and> (todoNo, phase1_result commit) \<in> set (after_phase1 commit)
    \<and> list_all (\<lambda>e. p_phase (snd e) = PHASE2_AI \<or> p_phase (snd e) = PHASE2_PLAIN) add2
    \<and> list_all (\<lambda>e. p_phase (snd e) = PHASE3) add3
    \<and> map_of (fst (merge_phases cfg w commit files todos)) todoNo = Some (phase1_result commit)
    \<and> (\<forall>d t. QuickCall d t \<in> set (snd (merge_phases cfg w commit files todos)) \<longrightarrow> ToDoNo t \<noteq> todoNo)
    \<and> (getLatestCommit w = Some commit \<and> files = filterExcludedFiles (git_changedFiles w)
         \<and> todos = getUnclosedTodos cfg w \<and> todos \<noteq> [] \<longrightarrow>
         merged (main cfg w st) = after_phase1 commit @ add2 @ add3
         \<and> model_calls (main cfg w st) = snd (merge_phases cfg w commit files todos))"
proof -
  let ?r1 = "after_phase1 commit"
  let ?s2 = "after_phase2 cfg w commit files todos ?r1"
  let ?s3 = "merge_phases cfg w commit files todos"
  have d1: "distinct (map fst ?r1)"
    by (simp add: after_phase1_eq comp_def distinct_phase1)
  have mem: "(todoNo, phase1_result commit) \<in> set ?r1"
    using assms by (auto simp: after_phase1_eq)
  have e2: "extends (\<lambda>v. p_phase v = PHASE2_AI \<or> p_phase v = PHASE2_PLAIN) ?r1 (fst ?s2)"
    using d1 by (rule after_phase2_extends)
  have e3: "extends (\<lambda>v. p_phase v = PHASE3) (fst ?s2) (fst ?s3)"
    unfolding merge_phases_def using extends_distinct [OF e2] by (rule after_phase3_extends)
  from e2 obtain add2 where a2: "fst ?s2 = ?r1 @ add2"
    "list_all (\<lambda>e. p_phase (snd e) = PHASE2_AI \<or> p_phase (snd e) = PHASE2_PLAIN) add2"
    by (auto simp: extends_def)
  from e3 obtain add3 where a3: "fst ?s3 = fst ?s2 @ add3" "list_all (\<lambda>e. p_phase (snd e) = PHASE3) add3"
    "distinct (map fst (fst ?s3))"
    by (auto simp: extends_def)
  have mo: "map_of (fst ?s3) todoNo = Some (phase1_result commit)"
    using extends_members [OF e3 , of todoNo "phase1_result commit"] mem a2(1) by simp
  have calls: "set (snd ?s3) \<subseteq> quick_calls w {todoNo} \<union> {AnalyzeCall (take MAX_DIFF_SIZE (git_commitDiff w)) todos}"
    using assms by (intro merge_phases_calls) simp
  have nq: "\<forall>d t. QuickCall d t \<in> set (snd ?s3) \<longrightarrow> ToDoNo t \<noteq> todoNo"
    using calls by (auto simp: quick_calls_def)
  have ne: "fst ?s3 \<noteq> []" using mem a3(1) a2(1) by auto
  have m: "getLatestCommit w = Some commit \<and> files = filterExcludedFiles (git_changedFiles w)
         \<and> todos = getUnclosedTodos cfg w \<and> todos \<noteq> [] \<longrightarrow>
         merged (main cfg w st) = ?r1 @ add2 @ add3
         \<and> model_calls (main cfg w st) = snd ?s3"
    using ne a3(1) a2(1) main_merged [of w commit cfg st] by auto
  show ?thesis
    apply (rule exI [of _ add2], rule exI [of _ add3])
    using a2 a3 mem mo nq m by simp
qed

theorem phase1_first_writer_wins_witness:
  "js ''TODO-1'' \<in> set (phase1_extractFromMessage (c_message \<lparr>c_hash = js ''0123456789abcdef'', c_message = js ''Closes: TODO-1''\<rparr>))
   \<and> map_of (fst (merge_phases (ex_cfg True)
          (ex_world (js ''Closes: TODO-1'') (js ''diff'') (js ''fdiff'') (Returns [ex_todo (js ''TODO-1'') (Some (js ''src/foo.ts''))]))
          \<lparr>c_hash = js ''0123456789abcdef'', c_message = js ''Closes: TODO-1''\<rparr>
          [js ''src/foo.ts''] [ex_todo (js ''TODO-1'') (Some (js ''src/foo.ts''))])) (js ''TODO-1'')
     = Some (phase1_result \<lparr>c_hash = js ''0123456789abcdef'', c_message = js ''Closes: TODO-1''\<rparr>)"
proof -
  have h: "js ''TODO-1'' \<in> set (phase1_extractFromMessage (c_message \<lparr>c_hash = js ''0123456789abcdef'', c_message = js ''Closes: TODO-1''\<rparr>))"
    by code_simp
  from phase1_first_writer_wins [OF h] h show ?thesis by blast
qed

section \<open>Secrets stop Phase 3\<close>

lemma re_test_here: "matches r s \<noteq> [] \<Longrightarrow> re_test r s"
  by (cases s) auto

lemma re_test_append: "matches r s \<noteq> [] \<Longrightarrow> re_test r (pre @ s)"
  by (induction pre) (auto simp: re_test_here)

lemma matches_Star_nonempty: "matches (Star a) s \<noteq> []"
  by (subst matches.simps(6)) simp

lemma matches_rep_exact_Atom:
  "length k = n \<Longrightarrow> list_all p k \<Longrightarrow> matches (rep_exact n (Atom p)) (k @ rest) = [rest]"
  by (induction k arbitrary: n) (auto simp: rep_exact_def)

lemma matches_sk: "matches (txt_cs ''sk-'') (js ''sk-'' @ s) = [s]"
  by (simp add: txt_cs_def lit_def js_def)

lemma matches_SECRET_OPENAI:
  assumes "20 \<le> length key" and "list_all is_alnum key"
  shows "matches SECRET_OPENAI (js ''sk-'' @ key @ post) \<noteq> []"
proof -
  have k: "key @ post = take 20 key @ (drop 20 key @ post)" by simp
  have "matches (rep_exact 20 (Atom is_alnum)) (take 20 key @ (drop 20 key @ post)) = [drop 20 key @ post]"
    using assms by (intro matches_rep_exact_Atom) (auto simp: list_all_iff dest: in_set_takeD)
  then have "matches (AtLeast 20 (Atom is_alnum)) (key @ post) = matches (Star (Atom is_alnum)) (drop 20 key @ post)"
    by (subst k) (simp add: AtLeast_def)
  then show ?thesis
    by (simp add: SECRET_OPENAI_def matches_sk matches_Star_nonempty)
qed

lemma detectSecrets_loop_iff: "detectSecrets_loop ps d \<longleftrightarrow> list_ex (\<lambda>p. re_test p d) ps"
  by (induction ps) auto

lemma detectSecrets_iff: "detectSecrets d \<longleftrightarrow> list_ex (\<lambda>p. re_test p d) SECRET_PATTERNS"
  by (simp add: detectSecrets_def detectSecrets_loop_iff)

lemma detectSecrets_sk:
  assumes "20 \<le> length key" and "list_all is_alnum key"
  shows "detectSecrets (pre @ js ''sk-'' @ key @ post)"
  using re_test_append [OF matches_SECRET_OPENAI [OF assms, of post], of pre]
  by (simp add: detectSecrets_def SECRET_PATTERNS_def)

lemma phase3_secret: "detectSecrets diff \<Longrightarrow> phase3_analyzeWithAI cfg w calls diff files todos = ([], calls)"
  by (simp add: phase3_analyzeWithAI_def sanitizeDiff_def)

text \<open>
  Claim C2. If the full diff of the commit holds a text of the language of some secret
  pattern (in particular if it holds \<open>sk-\<close> followed by 20 or more ASCII letters and
  digits), \<open>detectSecrets\<close> is true,
  \<open>sanitizeDiff\<close> throws, \<open>phase3_analyzeWithAI\<close> returns no result and leaves the list of
  model calls as it was (no call is made), and the Phase 3 block of \<open>main\<close> hands on the
  results of Phases 1 and 2 unchanged.
\<close>

theorem secret_aborts_phase3:
  assumes "(\<exists>p \<in> set SECRET_PATTERNS. \<exists>pre m post. m \<in> lang p \<and> diff = pre @ m @ post)
     \<or> (\<exists>pre key post. diff = pre @ js ''sk-'' @ key @ post \<and> 20 \<le> length key \<and> list_all is_alnum key)"
  shows "detectSecrets diff
     \<and> sanitizeDiff diff files = Inl SecretDetected
     \<and> phase3_analyzeWithAI cfg w calls diff files todos = ([], calls)
     \<and> (git_commitDiff w = diff \<longrightarrow>
          after_phase3 cfg w commit files todos (results, calls) = (results, calls))"
proof -
  have d: "detectSecrets diff"
    using assms detectSecrets_sk by (auto simp: detectSecrets_iff list_ex_iff re_test_iff)
  then show ?thesis
    by (simp add: phase3_secret after_phase3_def Let_def sanitizeDiff_def)
qed

theorem secret_aborts_phase3_witness:
  "(\<exists>p \<in> set SECRET_PATTERNS. \<exists>pre m post. m \<in> lang p
        \<and> js ''key = sk-abcdefghijklmnopqrstuvwxyz'' = pre @ m @ post)
   \<and> phase3_analyzeWithAI (ex_cfg True)
        (ex_world (js ''update'') (js ''key = sk-abcdefghijklmnopqrstuvwxyz'') [] (Returns []))
        [] (js ''key = sk-abcdefghijklmnopqrstuvwxyz'') [] [ex_todo (js ''TODO-1'') None] = ([], [])"
proof -
  have "list_ex (\<lambda>p. re_test p (js ''key = sk-abcdefghijklmnopqrstuvwxyz'')) SECRET_PATTERNS"
    by code_simp
  then have h: "\<exists>p \<in> set SECRET_PATTERNS. \<exists>pre m post. m \<in> lang p
      \<and> js ''key = sk-abcdefghijklmnopqrstuvwxyz'' = pre @ m @ post"
    by (simp add: list_ex_iff re_test_iff)
  from secret_aborts_phase3 [OF disjI1 [OF h]] h show ?thesis by blast
qed

section \<open>Phase 2 and the secret patterns\<close>

text \<open>
  Claim C3, at an input where the code departs from it. The changed file \<open>src/foo.ts\<close>
  is not excluded, its diff holds an API key that \<open>detectSecrets\<close> finds, and the only
  open ticket names the file as its artifact. With the model check of Phase 2 enabled the
  run sends this diff to the model: \<open>quickAICheck\<close> cuts it to 3000 code units and does
  not scan it.
\<close>

theorem phase2_sends_unscanned_diff:
  "detectSecrets (js ''key = sk-abcdefghijklmnopqrstuvwxyz'')
   \<and> \<not> isExcludedFile (js ''src/foo.ts'')
   \<and> model_calls (main ((ex_cfg True)\<lparr>AI_ANALYSIS_ENABLED := False\<rparr>)
        (ex_world (js ''update'') (js ''diff'') (js ''key = sk-abcdefghijklmnopqrstuvwxyz'')
           (Returns [ex_todo (js ''TODO-1'') (Some (js ''src/foo.ts''))]))
        (ex_store [ex_todo (js ''TODO-1'') (Some (js ''src/foo.ts''))]))
     = [QuickCall (js ''key = sk-abcdefghijklmnopqrstuvwxyz'') (ex_todo (js ''TODO-1'') (Some (js ''src/foo.ts'')))]"
  by code_simp

section \<open>Phase 1: what is extracted\<close>

lemma exec_here_mem:
  assumes "exec_here p g s = Some (cap, rest)"
  shows "\<exists>r1. r1 \<in> set (matches p s) \<and> rest \<in> set (matches g r1) \<and> cap = take (length r1 - length rest) r1"
proof -
  let ?ms = "concat (map (\<lambda>r1. map (\<lambda>r2. (take (length r1 - length r2) r1, r2))
        (matches g r1)) (matches p s))"
  from assms obtain xs where "?ms = (cap, rest) # xs"
    by (auto simp: exec_here_def split: list.splits)
  then have "(cap, rest) \<in> set ?ms"
    by (metis list.set_intros(1))
  then show ?thesis by auto
qed

lemma exec_here_lang:
  assumes "exec_here p g s = Some (cap, rest)"
  shows "\<exists>m. m \<in> lang p \<and> cap \<in> lang g \<and> s = m @ cap @ rest"
proof -
  from exec_here_mem [OF assms] obtain r1 where
    r1: "r1 \<in> set (matches p s)" "rest \<in> set (matches g r1)" "cap = take (length r1 - length rest) r1"
    by blast
  from matches_sound [OF r1(1)] obtain m where m: "m \<in> lang p" "s = m @ r1" by blast
  from matches_sound [OF r1(2)] obtain k where k: "k \<in> lang g" "r1 = k @ rest" by blast
  have "cap = k" using r1(3) k(2) by simp
  then show ?thesis using m k by auto
qed

lemma star_Atom: "y \<in> star (lang (Atom p)) \<Longrightarrow> list_all p y"
  by (induction rule: star.induct) auto

lemma lang_COMMIT_GROUP: "k \<in> lang COMMIT_GROUP \<Longrightarrow> k \<noteq> [] \<and> list_all is_digit k"
  using star_Atom [of _ is_digit] by (auto simp: COMMIT_GROUP_def Plus_def)

lemma hd_matches_Star_Atom: "hd (matches (Star (Atom p)) s) = dropWhile p s"
proof (induction s)
  case Nil
  show ?case by (subst matches.simps(6)) simp
next
  case (Cons c cs)
  have "matches (Star (Atom p)) (c # cs) = (if p c then matches (Star (Atom p)) cs else []) @ [c # cs]"
    by (subst matches.simps(6)) simp
  then show ?case using Cons matches_Star_nonempty [of "Atom p" cs] by simp
qed

lemma matches_PREFIX_K: "matches COMMIT_PREFIX (js ''Closes: TODO-'' @ t) = [t]"
  by (simp add: COMMIT_PREFIX_def COMMIT_VERB_def txt_i_def lit_i_def one_of_i_def js_def canon_def
      is_lower_def is_space_def matches.simps(6))

lemma re_search_here: "exec_here p g s = Some m \<Longrightarrow> re_search p g s = Some m"
  by (cases s) auto

lemma phase1_loop_mono: "set todos \<subseteq> set (phase1_loop match todos)"
  by (induction match todos rule: phase1_loop.induct) auto

lemma digit_follows_simps [simp]:
  "digit_follows [] = False" "digit_follows (c # cs) = is_digit c"
  by (simp_all add: digit_follows_def)

lemma run_unique:
  assumes "list_all P a" and "list_all P b" and "x = [] \<or> \<not> P (hd x)" and "y = [] \<or> \<not> P (hd y)"
    and "a @ x = b @ y"
  shows "a = b \<and> x = y"
proof -
  have t: "list_all P a \<Longrightarrow> x = [] \<or> \<not> P (hd x) \<Longrightarrow> takeWhile P (a @ x) = a" for a x
    by (cases x) (auto simp: list_all_iff takeWhile_append)
  have "a = takeWhile P (a @ x)" using t [OF assms(1,3)] by simp
  also have "\<dots> = b" unfolding assms(5) using t [OF assms(2,4)] .
  finally show ?thesis using assms(5) by simp
qed

lemma split_at:
  "c \<notin> set a \<Longrightarrow> a @ c # X = A @ c # B \<Longrightarrow> (A = a \<and> B = X) \<or> (\<exists>A'. A = a @ c # A' \<and> X = A' @ c # B)"
  by (induction a arbitrary: A) (auto simp: Cons_eq_append_conv)

lemma first_colon:
  "c \<notin> set a \<Longrightarrow> c \<notin> set b \<Longrightarrow> a @ c # x = b @ c # y \<Longrightarrow> a = b \<and> x = y"
  using split_at [of c a x b y] by auto

lemma lang_PREFIX_shape:
  "m \<in> lang COMMIT_PREFIX \<Longrightarrow>
     \<exists>v sp t. m = v @ 58 # sp @ t \<and> v \<in> lang COMMIT_VERB \<and> list_all is_space sp \<and> t \<in> lang (txt_i ''TODO-'')"
proof -
  assume "m \<in> lang COMMIT_PREFIX"
  then obtain v k sp t where m: "m = v @ k @ sp @ t" "v \<in> lang COMMIT_VERB" "k \<in> lang (lit_i CHR '':'')"
    "sp \<in> star (lang (Atom is_space))" "t \<in> lang (txt_i ''TODO-'')"
    by (auto simp: COMMIT_PREFIX_def)
  from m(3) have "k = [58]"
    by (auto simp: lit_i_def canon_def is_lower_def split: if_splits)
  with m star_Atom [OF m(4)] show ?thesis by auto
qed

lemma lang_TODO:
  "t \<in> lang (txt_i ''TODO-'') \<Longrightarrow> length t = 5 \<and> \<not> is_space (hd t) \<and> 58 \<notin> set t"
  by (auto simp: txt_i_def lit_i_def canon_def is_lower_def is_space_def split: if_splits)

lemma lang_VERB_shape:
  "v \<in> lang COMMIT_VERB \<Longrightarrow>
     \<exists>c v'. v = c # v' \<and> canon c \<in> {67, 68, 70, 82} \<and> v' \<noteq> []
        \<and> (\<forall>x \<in> set (butlast v'). canon x \<notin> {67, 68, 70, 82})
        \<and> (\<forall>x \<in> set v. is_upper (canon x))"
  unfolding COMMIT_VERB_def txt_i_def lit_i_def one_of_i_def
  by (auto simp: is_upper_def canon_def [of "of_char _"] canon_def [of "numeral _"] is_lower_def)

lemma lang_VERB_plain: "v \<in> lang COMMIT_VERB \<Longrightarrow> 58 \<notin> set v \<and> (\<forall>x \<in> set v. \<not> is_digit x) \<and> v \<noteq> []"
proof -
  assume "v \<in> lang COMMIT_VERB"
  from lang_VERB_shape [OF this] have u: "\<forall>x \<in> set v. is_upper (canon x)" and "v \<noteq> []" by auto
  have "is_upper (canon x) \<Longrightarrow> x \<noteq> 58 \<and> \<not> is_digit x" for x
    by (auto simp: is_upper_def canon_def is_lower_def is_digit_def split: if_splits)
  with u \<open>v \<noteq> []\<close> show ?thesis by blast
qed

lemma VERB_no_suffix:
  assumes "v1 \<in> lang COMMIT_VERB" and "v2 \<in> lang COMMIT_VERB" and "v1 = u @ v2"
  shows "u = []"
proof (rule ccontr)
  assume "u \<noteq> []"
  from lang_VERB_shape [OF assms(1)] obtain c1 v1' where
    1: "v1 = c1 # v1'" "\<forall>x \<in> set (butlast v1'). canon x \<notin> {67, 68, 70, 82}" by blast
  from lang_VERB_shape [OF assms(2)] obtain c2 v2' where
    2: "v2 = c2 # v2'" "canon c2 \<in> {67, 68, 70, 82}" "v2' \<noteq> []" by blast
  from \<open>u \<noteq> []\<close> obtain a u' where u: "u = a # u'" by (cases u) auto
  from assms(3) 1(1) 2(1) u have "v1' = u' @ c2 # v2'" by simp
  with 2(3) have "c2 \<in> set (butlast v1')" by (simp add: butlast_append)
  with 1(2) 2(2) show False by blast
qed

lemma prefix_code:
  assumes "m \<in> lang COMMIT_PREFIX" and "m1 \<in> lang COMMIT_PREFIX" and "m @ r = m1 @ r1"
  shows "m1 = m \<and> r1 = r"
proof -
  from lang_PREFIX_shape [OF assms(1)] obtain v sp t where
    m: "m = v @ 58 # sp @ t" "v \<in> lang COMMIT_VERB" "list_all is_space sp" "t \<in> lang (txt_i ''TODO-'')"
    by blast
  from lang_PREFIX_shape [OF assms(2)] obtain v1 sp1 t1 where
    m1: "m1 = v1 @ 58 # sp1 @ t1" "v1 \<in> lang COMMIT_VERB" "list_all is_space sp1" "t1 \<in> lang (txt_i ''TODO-'')"
    by blast
  from assms(3) have "v @ 58 # (sp @ t @ r) = v1 @ 58 # (sp1 @ t1 @ r1)"
    unfolding m(1) m1(1) by simp
  from first_colon [OF _ _ this] lang_VERB_plain [OF m(2)] lang_VERB_plain [OF m1(2)]
  have v: "v = v1" and e: "sp @ (t @ r) = sp1 @ (t1 @ r1)" by auto
  from lang_TODO [OF m(4)] have t: "length t = 5" "\<not> is_space (hd t)" by auto
  from lang_TODO [OF m1(4)] have t1: "length t1 = 5" "\<not> is_space (hd t1)" by auto
  have "t @ r = [] \<or> \<not> is_space (hd (t @ r))" using t by (cases t) auto
  moreover have "t1 @ r1 = [] \<or> \<not> is_space (hd (t1 @ r1))" using t1 by (cases t1) auto
  ultimately have "sp = sp1 \<and> t @ r = t1 @ r1"
    using run_unique [OF m(3) m1(3) _ _ e] by blast
  with t(1) t1(1) v show ?thesis unfolding m(1) m1(1) by auto
qed

lemma matches_GROUP_hd:
  assumes "d \<noteq> []" and "list_all is_digit d" and "\<not> digit_follows post"
  shows "\<exists>xs. matches COMMIT_GROUP (d @ post) = post # xs"
proof -
  from assms(1) obtain c d' where d: "d = c # d'" by (cases d) auto
  have g: "matches COMMIT_GROUP (d @ post) = matches (Star (Atom is_digit)) (d' @ post)"
    using assms(2) by (simp add: d COMMIT_GROUP_def Plus_def)
  have "dropWhile is_digit (d' @ post) = post"
    using assms(2,3) by (cases post) (auto simp: d list_all_iff dropWhile_append)
  then have "hd (matches (Star (Atom is_digit)) (d' @ post)) = post"
    using hd_matches_Star_Atom [of is_digit "d' @ post"] by simp
  with matches_Star_nonempty [of "Atom is_digit" "d' @ post"] show ?thesis
    unfolding g by (cases "matches (Star (Atom is_digit)) (d' @ post)") auto
qed

lemma exec_here_occ:
  assumes "m \<in> lang COMMIT_PREFIX" and "d \<noteq> []" and "list_all is_digit d" and "\<not> digit_follows post"
  shows "exec_here COMMIT_PREFIX COMMIT_GROUP (m @ d @ post) = Some (d, post)"
proof -
  let ?s = "m @ d @ post"
  have all: "r1 = d @ post" if "r1 \<in> set (matches COMMIT_PREFIX ?s)" for r1
  proof -
    from matches_sound [OF that] obtain m1 where "m1 \<in> lang COMMIT_PREFIX" "?s = m1 @ r1" by blast
    from prefix_code [OF assms(1) this(1), of "d @ post" r1] this(2) show ?thesis by simp
  qed
  have "d @ post \<in> set (matches COMMIT_PREFIX ?s)"
    using matches_complete [OF assms(1)] by simp
  then obtain x xs where x: "matches COMMIT_PREFIX ?s = x # xs"
    by (cases "matches COMMIT_PREFIX ?s") auto
  with all [of x] have x': "x = d @ post" by simp
  from matches_GROUP_hd [OF assms(2-4)] obtain ys where
    g: "matches COMMIT_GROUP (d @ post) = post # ys" by blast
  show ?thesis
    unfolding exec_here_def x x' by (simp add: g)
qed

lemma digits_split:
  "\<exists>d post. s = d @ post \<and> list_all is_digit d \<and> \<not> digit_follows post"
proof -
  have "s = takeWhile is_digit s @ dropWhile is_digit s" by simp
  moreover have "list_all is_digit (takeWhile is_digit s)"
    by (simp add: list_all_iff) (meson set_takeWhileD)
  moreover have "\<not> digit_follows (dropWhile is_digit s)"
    by (induction s) auto
  ultimately show ?thesis by blast
qed

lemma exec_here_max:
  assumes "exec_here COMMIT_PREFIX COMMIT_GROUP s = Some (cap, rest)"
  shows "\<exists>m. m \<in> lang COMMIT_PREFIX \<and> s = m @ cap @ rest \<and> cap \<noteq> [] \<and> list_all is_digit cap
           \<and> \<not> digit_follows rest"
proof -
  from exec_here_lang [OF assms] obtain m where
    m: "m \<in> lang COMMIT_PREFIX" "cap \<in> lang COMMIT_GROUP" "s = m @ cap @ rest" by blast
  from lang_COMMIT_GROUP [OF m(2)] have c: "cap \<noteq> []" "list_all is_digit cap" by auto
  from digits_split [of rest] obtain d post where
    r: "rest = d @ post" "list_all is_digit d" "\<not> digit_follows post" by blast
  have "exec_here COMMIT_PREFIX COMMIT_GROUP (m @ (cap @ d) @ post) = Some (cap @ d, post)"
    using c r(2,3) by (intro exec_here_occ [OF m(1)]) auto
  with assms m(3) r(1) have "d = []" by simp
  with r m c show ?thesis by auto
qed

lemma exec_no_overlap_occ:
  assumes "exec_here COMMIT_PREFIX COMMIT_GROUP (u @ m @ d @ post) = Some (cap, rest)" and "u \<noteq> []"
    and "m \<in> lang COMMIT_PREFIX"
  shows "\<exists>u'. rest = u' @ m @ d @ post \<and> length u' < length u"
proof -
  from exec_here_lang [OF assms(1)] obtain m1 where
    m1: "m1 \<in> lang COMMIT_PREFIX" "cap \<in> lang COMMIT_GROUP" "u @ m @ d @ post = m1 @ cap @ rest"
    by blast
  from lang_COMMIT_GROUP [OF m1(2)] have cap: "cap \<noteq> []" "list_all is_digit cap" by auto
  from lang_PREFIX_shape [OF m1(1)] obtain v1 sp1 t1 where
    s1: "m1 = v1 @ 58 # sp1 @ t1" "v1 \<in> lang COMMIT_VERB" "list_all is_space sp1" "t1 \<in> lang (txt_i ''TODO-'')"
    by blast
  from lang_PREFIX_shape [OF assms(3)] obtain v sp t where
    s: "m = v @ 58 # sp @ t" "v \<in> lang COMMIT_VERB"
    by blast
  let ?occ = "m @ d @ post"
  have eq: "u @ ?occ = (m1 @ cap) @ rest" using m1(3) by simp
  have "\<exists>us. (u = (m1 @ cap) @ us \<and> us @ ?occ = rest) \<or> (u @ us = m1 @ cap \<and> ?occ = us @ rest)"
    using eq unfolding append_eq_append_conv2 [of u ?occ "m1 @ cap" rest] by blast
  then obtain us where us: "(u = (m1 @ cap) @ us \<and> us @ ?occ = rest) \<or> (u @ us = m1 @ cap \<and> ?occ = us @ rest)"
    by blast
  have "(\<exists>us. u = (m1 @ cap) @ us \<and> us @ ?occ = rest)
      \<or> (\<exists>us. u @ us = m1 @ cap \<and> ?occ = us @ rest \<and> us \<noteq> [])"
  proof (cases "us = []")
    case True
    with us have "u = (m1 @ cap) @ [] \<and> [] @ ?occ = rest" by auto
    then show ?thesis by blast
  next
    case False
    with us show ?thesis by blast
  qed
  then consider us where "u = (m1 @ cap) @ us" "us @ ?occ = rest"
    | us where "u @ us = m1 @ cap" "?occ = us @ rest" "us \<noteq> []"
    by blast
  then show ?thesis
  proof cases
    case 1
    have "length us < length u" unfolding 1(1) using cap(1) by simp
    with 1(2) show ?thesis by blast
  next
    case 2
    have last: "is_digit (last us)"
    proof -
      have "last us = last (u @ us)" using 2(3) by simp
      also have "\<dots> = last (m1 @ cap)" unfolding 2(1) ..
      also have "\<dots> = last cap" using cap(1) by simp
      finally show ?thesis using cap by (simp add: list_all_iff)
    qed
    have v: "58 \<notin> set v" "\<forall>x \<in> set v. \<not> is_digit x" using lang_VERB_plain [OF s(2)] by auto
    have h: "v @ (58 # sp @ t @ d @ post) = us @ rest"
    proof -
      have "v @ (58 # sp @ t @ d @ post) = m @ d @ post" unfolding s(1) by simp
      also have "\<dots> = us @ rest" by (rule 2(2))
      finally show ?thesis .
    qed
    have "\<exists>ws. (v = us @ ws \<and> ws @ 58 # sp @ t @ d @ post = rest)
        \<or> (v @ ws = us \<and> 58 # sp @ t @ d @ post = ws @ rest)"
      by (rule iffD1 [OF append_eq_append_conv2 h])
    then obtain ws where
      ws: "(v = us @ ws \<and> ws @ 58 # sp @ t @ d @ post = rest)
        \<or> (v @ ws = us \<and> 58 # sp @ t @ d @ post = ws @ rest)"
      by (rule exE)
    have nv: "\<not> (v = us @ ws)"
    proof
      assume "v = us @ ws"
      then have "last us \<in> set v" using 2(3) by simp
      with v(2) last show False by blast
    qed
    from ws nv have w1: "us = v @ ws" and w2: "58 # sp @ t @ d @ post = ws @ rest" by auto
    have "ws \<noteq> []"
    proof
      assume "ws = []"
      then have "us = v" using w1 by simp
      then have "last us \<in> set v" using 2(3) by simp
      with v(2) last show False by blast
    qed
    then obtain k ws' where "ws = k # ws'" by (cases ws) auto
    with w2 have ws': "ws = 58 # ws'" by simp
    have "(u @ v) @ 58 # ws' = u @ us" unfolding w1 ws' by simp
    also have "\<dots> = v1 @ 58 # (sp1 @ t1 @ cap)" unfolding 2(1) s1(1) by simp
    finally have e: "v1 @ 58 # (sp1 @ t1 @ cap) = (u @ v) @ 58 # ws'" by (rule sym)
    have n1: "58 \<notin> set v1" using lang_VERB_plain [OF s1(2)] by simp
    have n2: "58 \<notin> set (sp1 @ t1 @ cap)"
      using s1(3) lang_TODO [OF s1(4)] cap(2) by (auto simp: list_all_iff is_space_def is_digit_def)
    from split_at [OF n1 e] have "u @ v = v1 \<or> (\<exists>A'. u @ v = v1 @ 58 # A' \<and> sp1 @ t1 @ cap = A' @ 58 # ws')"
      by blast
    then have "v1 = u @ v"
    proof
      assume "u @ v = v1"
      then show ?thesis by simp
    next
      assume "\<exists>A'. u @ v = v1 @ 58 # A' \<and> sp1 @ t1 @ cap = A' @ 58 # ws'"
      then obtain A' where "sp1 @ t1 @ cap = A' @ 58 # ws'" by blast
      then have "58 \<in> set (sp1 @ t1 @ cap)" by simp
      with n2 show ?thesis by blast
    qed
    from VERB_no_suffix [OF s1(2) s(2) this] assms(2) show ?thesis by simp
  qed
qed

lemma re_search_occ:
  assumes "m \<in> lang COMMIT_PREFIX" and "d \<noteq> []" and "list_all is_digit d" and "\<not> digit_follows post"
  shows "\<exists>cap rest. re_search COMMIT_PREFIX COMMIT_GROUP (u @ m @ d @ post) = Some (cap, rest)
     \<and> ((cap = d \<and> rest = post) \<or> (\<exists>u'. rest = u' @ m @ d @ post \<and> length u' < length u))"
proof (induction u)
  case Nil
  show ?case using re_search_here [OF exec_here_occ [OF assms]] by simp
next
  case (Cons c u0)
  show ?case
  proof (cases "exec_here COMMIT_PREFIX COMMIT_GROUP ((c # u0) @ m @ d @ post)")
    case None
    then have "re_search COMMIT_PREFIX COMMIT_GROUP ((c # u0) @ m @ d @ post)
        = re_search COMMIT_PREFIX COMMIT_GROUP (u0 @ m @ d @ post)"
      by simp
    with Cons show ?thesis by auto
  next
    case (Some a)
    obtain cap rest where a: "a = (cap, rest)" by (cases a)
    from exec_no_overlap_occ [OF Some [unfolded a] _ assms(1)] obtain u' where
      "rest = u' @ m @ d @ post" "length u' < length (c # u0)"
      by auto
    moreover have "re_search COMMIT_PREFIX COMMIT_GROUP ((c # u0) @ m @ d @ post) = Some (cap, rest)"
      using Some a by (intro re_search_here) simp
    ultimately show ?thesis by blast
  qed
qed

lemma phase1_loop_occ:
  assumes "m \<in> lang COMMIT_PREFIX" and "d \<noteq> []" and "list_all is_digit d" and "\<not> digit_follows post"
  shows "js ''TODO-'' @ d \<in> set (phase1_loop (re_search COMMIT_PREFIX COMMIT_GROUP (u @ m @ d @ post)) todos)"
proof (induction u arbitrary: todos rule: length_induct)
  case (1 u)
  from re_search_occ [OF assms, of u] obtain cap rest where
    s: "re_search COMMIT_PREFIX COMMIT_GROUP (u @ m @ d @ post) = Some (cap, rest)"
    and c: "(cap = d \<and> rest = post) \<or> (\<exists>u'. rest = u' @ m @ d @ post \<and> length u' < length u)"
    by blast
  from c show ?case
  proof
    assume "cap = d \<and> rest = post"
    then have "phase1_loop (re_search COMMIT_PREFIX COMMIT_GROUP (u @ m @ d @ post)) todos
      = phase1_loop (re_search COMMIT_PREFIX COMMIT_GROUP post) (todos @ [js ''TODO-'' @ d])"
      using s by simp
    then show ?thesis
      using phase1_loop_mono [of "todos @ [js ''TODO-'' @ d]" "re_search COMMIT_PREFIX COMMIT_GROUP post"]
      by auto
  next
    assume "\<exists>u'. rest = u' @ m @ d @ post \<and> length u' < length u"
    then obtain u' where u': "rest = u' @ m @ d @ post" "length u' < length u" by blast
    have "phase1_loop (re_search COMMIT_PREFIX COMMIT_GROUP (u @ m @ d @ post)) todos
      = phase1_loop (re_search COMMIT_PREFIX COMMIT_GROUP (u' @ m @ d @ post)) (todos @ [js ''TODO-'' @ cap])"
      using s u'(1) by simp
    then show ?thesis using 1 u'(2) by simp
  qed
qed

lemma phase1_complete:
  assumes "follows_verb message x"
  shows "x \<in> set (phase1_extractFromMessage message)"
proof -
  from assms obtain pre m d post where
    "x = js ''TODO-'' @ d" "d \<noteq> []" "list_all is_digit d" "\<not> digit_follows post"
    "m \<in> lang COMMIT_PREFIX" "message = pre @ m @ d @ post"
    unfolding follows_verb_def by blast
  with phase1_loop_occ [of m d post pre "[]"] show ?thesis
    by (simp add: phase1_extractFromMessage_def set_dedup)
qed

lemma re_search_max:
  "re_search COMMIT_PREFIX COMMIT_GROUP s = Some (cap, rest) \<Longrightarrow>
     \<exists>pre m. m \<in> lang COMMIT_PREFIX \<and> s = pre @ m @ cap @ rest \<and> cap \<noteq> [] \<and> list_all is_digit cap
           \<and> \<not> digit_follows rest"
proof (induction s)
  case Nil
  from exec_here_max [of "[]" cap rest] Nil show ?case by auto
next
  case (Cons c cs)
  show ?case
  proof (cases "exec_here COMMIT_PREFIX COMMIT_GROUP (c # cs)")
    case None
    with Cons obtain pre m where "m \<in> lang COMMIT_PREFIX" "cs = pre @ m @ cap @ rest"
      "cap \<noteq> []" "list_all is_digit cap" "\<not> digit_follows rest" by auto
    then have "m \<in> lang COMMIT_PREFIX \<and> c # cs = (c # pre) @ m @ cap @ rest
        \<and> cap \<noteq> [] \<and> list_all is_digit cap \<and> \<not> digit_follows rest" by simp
    then show ?thesis by blast
  next
    case (Some a)
    with Cons.prems have "exec_here COMMIT_PREFIX COMMIT_GROUP (c # cs) = Some (cap, rest)" by simp
    from exec_here_max [OF this] obtain m where "m \<in> lang COMMIT_PREFIX \<and> c # cs = [] @ m @ cap @ rest
        \<and> cap \<noteq> [] \<and> list_all is_digit cap \<and> \<not> digit_follows rest"
      by auto
    then show ?thesis by blast
  qed
qed

lemma phase1_loop_sound:
  "list_all (follows_verb message) todos \<Longrightarrow>
   (case match of None \<Rightarrow> True
    | Some (cap, rest) \<Rightarrow> \<exists>pre m. m \<in> lang COMMIT_PREFIX \<and> message = pre @ m @ cap @ rest
         \<and> cap \<noteq> [] \<and> list_all is_digit cap \<and> \<not> digit_follows rest) \<Longrightarrow>
   list_all (follows_verb message) (phase1_loop match todos)"
proof (induction match todos rule: phase1_loop.induct)
  case (1 todos)
  then show ?case by simp
next
  case (2 cap rest todos)
  from "2.prems"(2) obtain pre m where
    m: "m \<in> lang COMMIT_PREFIX" "message = pre @ m @ cap @ rest"
       "cap \<noteq> []" "list_all is_digit cap" "\<not> digit_follows rest"
    by auto
  have f: "follows_verb message (js ''TODO-'' @ cap)"
    unfolding follows_verb_def using m by blast
  have n: "case re_search COMMIT_PREFIX COMMIT_GROUP rest of None \<Rightarrow> True
    | Some (cap', rest') \<Rightarrow> \<exists>pre m. m \<in> lang COMMIT_PREFIX \<and> message = pre @ m @ cap' @ rest'
         \<and> cap' \<noteq> [] \<and> list_all is_digit cap' \<and> \<not> digit_follows rest'"
  proof (cases "re_search COMMIT_PREFIX COMMIT_GROUP rest")
    case None
    then show ?thesis by simp
  next
    case (Some a)
    obtain cap' rest' where a: "a = (cap', rest')" by (cases a)
    from re_search_max [OF Some [unfolded a]] obtain pre' m' where
      "m' \<in> lang COMMIT_PREFIX" "rest = pre' @ m' @ cap' @ rest'"
      "cap' \<noteq> []" "list_all is_digit cap'" "\<not> digit_follows rest'"
      by blast
    then have "m' \<in> lang COMMIT_PREFIX \<and> message = (pre @ m @ cap @ pre') @ m' @ cap' @ rest'
        \<and> cap' \<noteq> [] \<and> list_all is_digit cap' \<and> \<not> digit_follows rest'"
      using m(2) by simp
    then have "\<exists>pre m. m \<in> lang COMMIT_PREFIX \<and> message = pre @ m @ cap' @ rest'
        \<and> cap' \<noteq> [] \<and> list_all is_digit cap' \<and> \<not> digit_follows rest'"
      by blast
    then show ?thesis using Some a by simp
  qed
  show ?case using "2.IH" [OF _ n] "2.prems"(1) f by simp
qed

lemma phase1_sound:
  assumes "x \<in> set (phase1_extractFromMessage message)"
  shows "follows_verb message x"
proof -
  have "case re_search COMMIT_PREFIX COMMIT_GROUP message of None \<Rightarrow> True
    | Some (cap, rest) \<Rightarrow> \<exists>pre m. m \<in> lang COMMIT_PREFIX \<and> message = pre @ m @ cap @ rest
         \<and> cap \<noteq> [] \<and> list_all is_digit cap \<and> \<not> digit_follows rest"
    using re_search_max [of message] by (auto split: option.splits)
  then have "list_all (follows_verb message) (phase1_loop (re_search COMMIT_PREFIX COMMIT_GROUP message) [])"
    by (intro phase1_loop_sound) simp_all
  then show ?thesis using assms by (auto simp: phase1_extractFromMessage_def set_dedup list_all_iff)
qed

lemma phase1_set: "set (phase1_extractFromMessage message) = {x. follows_verb message x}"
  using phase1_sound phase1_complete by blast

lemma Closes_lang: "js ''Closes: TODO-'' \<in> lang COMMIT_PREFIX"
proof -
  have "[] \<in> set (matches COMMIT_PREFIX (js ''Closes: TODO-'' @ []))"
    unfolding matches_PREFIX_K by simp
  from matches_sound [OF this] show ?thesis by simp
qed

lemma K12_split: "K12 = js ''Closes: TODO-'' @ js ''12''" "K12 = js ''Closes'' @ 58 # js '' TODO-12''"
  by (simp_all add: K12_def js_def)

lemma phase1_K12:
  assumes "\<not> digit_follows post"
  shows "js ''TODO-12'' \<in> set (phase1_extractFromMessage (pre @ K12 @ post))"
proof -
  have "js ''TODO-'' @ js ''12'' \<in> set (phase1_loop (re_search COMMIT_PREFIX COMMIT_GROUP
      (pre @ js ''Closes: TODO-'' @ js ''12'' @ post)) [])"
    using assms by (intro phase1_loop_occ [OF Closes_lang]) (simp_all add: js_def is_digit_def)
  then show ?thesis
    by (simp add: phase1_extractFromMessage_def set_dedup K12_split(1) js_def)
qed

lemma exec_here_K12:
  assumes "\<not> digit_follows post"
  shows "exec_here COMMIT_PREFIX COMMIT_GROUP (K12 @ post) = Some (js ''12'', post)"
  using exec_here_occ [OF Closes_lang, of "js ''12''" post] assms
  by (simp add: K12_split(1) js_def is_digit_def)

lemma exec_here_newline: "exec_here COMMIT_PREFIX COMMIT_GROUP (10 # s) = None"
  by (simp add: exec_here_def COMMIT_PREFIX_def COMMIT_VERB_def txt_i_def lit_i_def canon_def is_lower_def)

lemma phase1_loop_repeat:
  "phase1_loop (re_search COMMIT_PREFIX COMMIT_GROUP (concat (replicate n (K12 @ [10])))) todos
     = todos @ replicate n (js ''TODO-12'')"
proof (induction n arbitrary: todos)
  case 0
  show ?case by (simp add: exec_here_def COMMIT_PREFIX_def COMMIT_VERB_def txt_i_def lit_i_def)
next
  case (Suc n)
  let ?rest = "concat (replicate n (K12 @ [10]))"
  have "exec_here COMMIT_PREFIX COMMIT_GROUP (K12 @ (10 # ?rest)) = Some (js ''12'', 10 # ?rest)"
    by (intro exec_here_K12) (simp add: is_digit_def)
  then have "re_search COMMIT_PREFIX COMMIT_GROUP (concat (replicate (Suc n) (K12 @ [10]))) = Some (js ''12'', 10 # ?rest)"
    by (intro re_search_here) simp
  moreover have "re_search COMMIT_PREFIX COMMIT_GROUP (10 # ?rest) = re_search COMMIT_PREFIX COMMIT_GROUP ?rest"
    by (simp add: exec_here_newline)
  ultimately have "phase1_loop (re_search COMMIT_PREFIX COMMIT_GROUP (concat (replicate (Suc n) (K12 @ [10])))) todos
     = phase1_loop (re_search COMMIT_PREFIX COMMIT_GROUP ?rest) (todos @ [js ''TODO-12''])"
    by (simp add: js_def)
  then show ?case using Suc [of "todos @ [js ''TODO-12'']"] by (simp add: replicate_app_Cons_same)
qed

lemma dedup_replicate: "x \<in> set seen \<Longrightarrow> dedup seen (replicate n x) = seen"
  by (induction n) auto

lemma phase1_repeat:
  "phase1_extractFromMessage (concat (replicate (Suc n) (K12 @ [10]))) = [js ''TODO-12'']"
  unfolding phase1_extractFromMessage_def phase1_loop_repeat
  by (simp add: dedup_replicate)

lemma reps_no_digit: "\<not> digit_follows (concat (map (\<lambda>s. K12 @ s) seps))"
  by (cases seps) (simp_all add: K12_def js_def is_digit_def)

lemma no_digit_append: "\<not> digit_follows s \<Longrightarrow> \<not> digit_follows r \<Longrightarrow> \<not> digit_follows (s @ r)"
  by (cases s) simp_all

lemma colon_in_reps:
  assumes "\<forall>s \<in> set seps. 58 \<notin> set s \<and> \<not> digit_follows s"
  shows "58 \<notin> set pre \<Longrightarrow> pre @ concat (map (\<lambda>s. K12 @ s) seps) = A @ 58 # B \<Longrightarrow>
     \<exists>r. B = js '' TODO-12'' @ r \<and> \<not> digit_follows r"
  using assms
proof (induction seps arbitrary: pre A)
  case Nil
  then have "58 \<in> set pre" by simp
  with Nil show ?case by simp
next
  case (Cons s ss)
  let ?C = "concat (map (\<lambda>s. K12 @ s) ss)"
  have s: "58 \<notin> set s" "\<not> digit_follows s" and ss: "\<forall>s \<in> set ss. 58 \<notin> set s \<and> \<not> digit_follows s"
    using Cons.prems(3) by auto
  have n: "58 \<notin> set (pre @ js ''Closes'')" using Cons.prems(1) by (simp add: js_def)
  have "(pre @ js ''Closes'') @ 58 # (js '' TODO-12'' @ s @ ?C) = A @ 58 # B"
    using Cons.prems(2) by (simp add: K12_split(2))
  from split_at [OF n this] show ?case
  proof
    assume "A = pre @ js ''Closes'' \<and> B = js '' TODO-12'' @ s @ ?C"
    then show ?thesis using no_digit_append [OF s(2) reps_no_digit [of ss]] by blast
  next
    assume "\<exists>A'. A = (pre @ js ''Closes'') @ 58 # A' \<and> js '' TODO-12'' @ s @ ?C = A' @ 58 # B"
    then obtain A' where "(js '' TODO-12'' @ s) @ ?C = A' @ 58 # B" by auto
    moreover have "58 \<notin> set (js '' TODO-12'' @ s)" using s(1) by (simp add: js_def)
    ultimately show ?thesis using Cons.IH [OF _ _ ss] by blast
  qed
qed

lemma only_12:
  assumes "58 \<notin> set pre" and "\<forall>s \<in> set seps. 58 \<notin> set s \<and> \<not> digit_follows s"
    and "follows_verb (pre @ concat (map (\<lambda>s. K12 @ s) seps)) x"
  shows "x = js ''TODO-12''"
proof -
  from assms(3) obtain p m d post where
    x: "x = js ''TODO-'' @ d" and d: "d \<noteq> []" "list_all is_digit d" "\<not> digit_follows post"
    and m: "m \<in> lang COMMIT_PREFIX" and e: "pre @ concat (map (\<lambda>s. K12 @ s) seps) = p @ m @ d @ post"
    unfolding follows_verb_def by blast
  from lang_PREFIX_shape [OF m] obtain v sp t where
    s: "m = v @ 58 # sp @ t" "list_all is_space sp" "t \<in> lang (txt_i ''TODO-'')"
    by blast
  from lang_TODO [OF s(3)] have t: "length t = 5" "\<not> is_space (hd t)" by auto
  have "pre @ concat (map (\<lambda>s. K12 @ s) seps) = (p @ v) @ 58 # (sp @ t @ d @ post)"
    unfolding e s(1) by simp
  from colon_in_reps [OF assms(2,1) this] obtain r where
    r: "sp @ t @ d @ post = js '' TODO-12'' @ r" "\<not> digit_follows r" by blast
  have 1: "sp @ (t @ d @ post) = [32] @ (js ''TODO-'' @ js ''12'' @ r)"
    using r(1) by (simp add: js_def)
  have 2: "t @ d @ post = [] \<or> \<not> is_space (hd (t @ d @ post))" using t by (cases t) auto
  have 3: "js ''TODO-'' @ js ''12'' @ r = [] \<or> \<not> is_space (hd (js ''TODO-'' @ js ''12'' @ r))"
    by (simp add: js_def is_space_def)
  have 4: "list_all is_space [32]" by (simp add: is_space_def)
  from run_unique [OF s(2) 4 2 3 1] have tt: "t @ (d @ post) = js ''TODO-'' @ (js ''12'' @ r)" by simp
  have "length t = length (js ''TODO-'')" using t(1) by (simp add: js_def)
  then have "t = js ''TODO-'' \<and> d @ post = js ''12'' @ r"
    using tt append_eq_append_conv [of t "js ''TODO-''" "d @ post" "js ''12'' @ r"] by blast
  then have 5: "d @ post = js ''12'' @ r" ..
  have 6: "list_all is_digit (js ''12'')" by (simp add: js_def is_digit_def)
  have 7: "post = [] \<or> \<not> is_digit (hd post)" using d(3) by (cases post) auto
  have 8: "r = [] \<or> \<not> is_digit (hd r)" using r(2) by (cases r) auto
  from run_unique [OF d(2) 6 7 8 5] have "d = js ''12''" by simp
  then show ?thesis unfolding x by (simp add: js_def)
qed

lemma distinct_singleton: "distinct l \<Longrightarrow> set l = {a} \<Longrightarrow> l = [a]"
  by (cases l) (auto simp: insert_eq_iff dest: subset_singletonD)

lemma phase1_exact:
  assumes "seps \<noteq> []" and "58 \<notin> set pre" and "\<forall>s \<in> set seps. 58 \<notin> set s \<and> \<not> digit_follows s"
  shows "phase1_extractFromMessage (pre @ concat (map (\<lambda>s. K12 @ s) seps)) = [js ''TODO-12'']"
proof -
  let ?msg = "pre @ concat (map (\<lambda>s. K12 @ s) seps)"
  from assms(1) obtain s ss where seps: "seps = s # ss" by (cases seps) auto
  have "\<not> digit_follows (s @ concat (map (\<lambda>s. K12 @ s) ss))"
    using assms(3) reps_no_digit [of ss] by (intro no_digit_append) (simp_all add: seps)
  from phase1_K12 [OF this, of pre] have "js ''TODO-12'' \<in> set (phase1_extractFromMessage ?msg)"
    by (simp add: seps)
  moreover have "x = js ''TODO-12''" if "x \<in> set (phase1_extractFromMessage ?msg)" for x
    using only_12 [OF assms(2,3)] phase1_sound [OF that] .
  ultimately have "set (phase1_extractFromMessage ?msg) = {js ''TODO-12''}" by blast
  with distinct_phase1 [of ?msg] show ?thesis by (rule distinct_singleton)
qed

text \<open>
  Claim C4, as amended. For every commit message the list of Phase 1 has no duplicates,
  and its elements are exactly the identifiers to which the message refers: \<open>TODO-\<close>
  with a non-empty run of digits that stands in the message behind a match of the verb
  part of \<open>COMMIT_PATTERN\<close> and is not followed by a further digit. For every message
  that holds \<open>Closes: TODO-12\<close> with no digit right behind it, the list contains
  \<open>TODO-12\<close>. When the message consists of a text without a colon, and then one or more
  times \<open>Closes: TODO-12\<close>, each followed by a text (possibly empty) that holds no colon
  and does not start with a digit, the list is exactly \<open>[TODO-12]\<close>; so it is for the
  line \<open>Closes: TODO-12\<close> repeated any number of times.
\<close>

theorem phase1_extraction:
  "distinct (phase1_extractFromMessage message)
   \<and> set (phase1_extractFromMessage message) = {x. follows_verb message x}
   \<and> (\<not> digit_follows post \<longrightarrow>
        js ''TODO-12'' \<in> set (phase1_extractFromMessage (pre @ js ''Closes: TODO-12'' @ post)))
   \<and> (seps \<noteq> [] \<and> of_char CHR '':'' \<notin> set before
        \<and> (\<forall>s \<in> set seps. of_char CHR '':'' \<notin> set s \<and> \<not> digit_follows s) \<longrightarrow>
        phase1_extractFromMessage (before @ concat (map (\<lambda>s. js ''Closes: TODO-12'' @ s) seps))
          = [js ''TODO-12''])
   \<and> phase1_extractFromMessage (concat (replicate (Suc n) (js ''Closes: TODO-12'' @ [10]))) = [js ''TODO-12'']"
proof -
  have c: "(of_char CHR '':'' :: nat) = 58" by simp
  have 3: "\<not> digit_follows post \<longrightarrow>
        js ''TODO-12'' \<in> set (phase1_extractFromMessage (pre @ js ''Closes: TODO-12'' @ post))"
    using phase1_K12 [of post pre] by (simp add: K12_def)
  have 4: "seps \<noteq> [] \<and> of_char CHR '':'' \<notin> set before
        \<and> (\<forall>s \<in> set seps. of_char CHR '':'' \<notin> set s \<and> \<not> digit_follows s) \<longrightarrow>
        phase1_extractFromMessage (before @ concat (map (\<lambda>s. js ''Closes: TODO-12'' @ s) seps))
          = [js ''TODO-12'']"
    unfolding c using phase1_exact [of seps before] by (simp add: K12_def)
  show ?thesis using distinct_phase1 phase1_set 3 4 phase1_repeat [of n] by (simp add: K12_def)
qed

theorem phase1_extraction_witness:
  "phase1_extractFromMessage (js ''Closes: TODO-7, fixes:TODO-8 (not TODO-9)'') = [js ''TODO-7'', js ''TODO-8'']
   \<and> follows_verb (js ''Closes: TODO-7, fixes:TODO-8 (not TODO-9)'') (js ''TODO-8'')
   \<and> \<not> follows_verb (js ''Closes: TODO-7, fixes:TODO-8 (not TODO-9)'') (js ''TODO-9'')
   \<and> \<not> digit_follows (js '' and more'')
   \<and> js ''TODO-12'' \<in> set (phase1_extractFromMessage (js ''Fix login. '' @ js ''Closes: TODO-12'' @ js '' and more''))
   \<and> [[10], []] \<noteq> [] \<and> of_char CHR '':'' \<notin> set (js ''Fix login'' @ [10, 10])
   \<and> list_all (\<lambda>s. of_char CHR '':'' \<notin> set s \<and> \<not> digit_follows s) [[10], []]
   \<and> phase1_extractFromMessage (js ''Fix login'' @ [10, 10] @ js ''Closes: TODO-12'' @ [10] @ js ''Closes: TODO-12'')
       = [js ''TODO-12'']"
proof -
  let ?m = "js ''Closes: TODO-7, fixes:TODO-8 (not TODO-9)''"
  have e: "phase1_extractFromMessage ?m = [js ''TODO-7'', js ''TODO-8'']" by code_simp
  note t = phase1_extraction [of ?m "js '' and more''" "js ''Fix login. ''" "[[10], []]" "js ''Fix login'' @ [10, 10]" 0]
  from t have s: "set (phase1_extractFromMessage ?m) = {x. follows_verb ?m x}" by blast
  have f: "follows_verb ?m (js ''TODO-8'')" using s unfolding e by auto
  have g: "\<not> follows_verb ?m (js ''TODO-9'')"
  proof
    assume "follows_verb ?m (js ''TODO-9'')"
    then have "js ''TODO-9'' \<in> set (phase1_extractFromMessage ?m)" using s by blast
    then show False unfolding e by (simp add: js_def)
  qed
  have h1: "\<not> digit_follows (js '' and more'')" by code_simp
  have h2: "[[10], []] \<noteq> ([] :: jsstr list)" by simp
  have h3: "of_char CHR '':'' \<notin> set (js ''Fix login'' @ [10, 10])" by code_simp
  have h4: "list_all (\<lambda>s. of_char CHR '':'' \<notin> set s \<and> \<not> digit_follows s) [[10], []]" by code_simp
  have h4': "\<forall>s \<in> set [[10], []]. of_char CHR '':'' \<notin> set s \<and> \<not> digit_follows s"
    using h4 by (simp add: list_all_iff)
  from t h1 have a: "js ''TODO-12'' \<in> set (phase1_extractFromMessage (js ''Fix login. '' @ js ''Closes: TODO-12'' @ js '' and more''))"
    by blast
  from t h2 h3 h4' have "phase1_extractFromMessage ((js ''Fix login'' @ [10, 10])
       @ concat (map (\<lambda>s. js ''Closes: TODO-12'' @ s) [[10], []])) = [js ''TODO-12'']"
    by blast
  then have b: "phase1_extractFromMessage (js ''Fix login'' @ [10, 10] @ js ''Closes: TODO-12'' @ [10] @ js ''Closes: TODO-12'')
       = [js ''TODO-12'']"
    by simp
  from e f g h1 a h2 h3 h4 b show ?thesis by blast
qed

text \<open>
  Claim C4 as it was stated fails. The message \<open>Closes: TODO-123\<close> contains
  \<open>Closes: TODO-12\<close>, and Phase 1 extracts \<open>TODO-123\<close> from it, not \<open>TODO-12\<close>. The
  message \<open>Closes: TODO-12, Fixes: TODO-13\<close> contains \<open>Closes: TODO-12\<close> too, and Phase 1
  extracts both identifiers from it.
\<close>

theorem phase1_extraction_counterexample:
  "str_includes (js ''Closes: TODO-123'') (js ''Closes: TODO-12'')
   \<and> phase1_extractFromMessage (js ''Closes: TODO-123'') = [js ''TODO-123'']
   \<and> [js ''TODO-123''] \<noteq> [js ''TODO-12'']
   \<and> str_includes (js ''Closes: TODO-12, Fixes: TODO-13'') (js ''Closes: TODO-12'')
   \<and> phase1_extractFromMessage (js ''Closes: TODO-12, Fixes: TODO-13'') = [js ''TODO-12'', js ''TODO-13'']
   \<and> [js ''TODO-12'', js ''TODO-13''] \<noteq> [js ''TODO-12'']"
  by code_simp

section \<open>Phase 2: how a ticket is matched\<close>

lemma starts_with_iff: "starts_with s p \<longleftrightarrow> (\<exists>post. s = p @ post)"
  by (induction s p rule: starts_with.induct) auto

lemma starts_with_includes: "starts_with s b \<Longrightarrow> str_includes s b"
  by (cases s) auto

lemma str_includes_iff: "str_includes a b \<longleftrightarrow> is_substring b a"
proof (induction a)
  case Nil
  then show ?case by (auto simp: starts_with_iff is_substring_def)
next
  case (Cons c cs)
  show ?case
  proof
    assume "str_includes (c # cs) b"
    then consider "starts_with (c # cs) b" | "is_substring b cs"
      using Cons by auto
    then show "is_substring b (c # cs)"
    proof cases
      case 1
      then obtain post where "c # cs = b @ post" by (auto simp: starts_with_iff)
      then have "c # cs = [] @ b @ post" by simp
      then show ?thesis unfolding is_substring_def by blast
    next
      case 2
      then obtain pre post where "cs = pre @ b @ post" by (auto simp: is_substring_def)
      then have "c # cs = (c # pre) @ b @ post" by simp
      then show ?thesis unfolding is_substring_def by blast
    qed
  next
    assume "is_substring b (c # cs)"
    then obtain pre post where e: "c # cs = pre @ b @ post" by (auto simp: is_substring_def)
    show "str_includes (c # cs) b"
    proof (cases pre)
      case Nil
      with e have "starts_with (c # cs) b" by (auto simp: starts_with_iff)
      then show ?thesis by (rule starts_with_includes)
    next
      case (Cons x xs)
      with e have "cs = xs @ b @ post" by simp
      then have "is_substring b cs" unfolding is_substring_def by blast
      with Cons.IH show ?thesis by simp
    qed
  qed
qed

lemma includes_char: "str_includes s [c] \<longleftrightarrow> c \<in> set s"
  by (induction s) auto

lemma glob_loop_find: "glob_loop mm target files = find (\<lambda>f. mm f target) files"
  by (induction files) auto

lemma substring_loop_find:
  "substring_loop target files = find (\<lambda>f. is_substring target f \<or> is_substring f target) files"
  by (induction files) (auto simp: str_includes_iff)

lemma trim_Nil: "trim [] = []"
  by (simp add: trim_def)

lemma phase2_refines:
  "phase2_matchByFileName mm files todos = phase2_spec mm files todos"
proof (induction todos)
  case Nil
  then show ?case by (simp add: phase2_spec_def List.map_filter_simps)
next
  case (Cons todo todos)
  have js: "js ''*'' = [42]" "js ''?'' = [63]" by (simp_all add: js_def)
  have sm: "(if str_includes target (js ''*'') \<or> str_includes target (js ''?'')
             then glob_loop mm target files else substring_loop target files)
      = find (spec_match mm target) files" for target
  proof -
    have "spec_match mm target = (\<lambda>f. mm f target)" if "42 \<in> set target \<or> 63 \<in> set target"
      using that by (auto simp: spec_match_def fun_eq_iff)
    moreover have "spec_match mm target = (\<lambda>f. is_substring target f \<or> is_substring f target)"
      if "\<not> (42 \<in> set target \<or> 63 \<in> set target)"
      using that by (auto simp: spec_match_def fun_eq_iff)
    ultimately show ?thesis
      by (auto simp: js includes_char glob_loop_find substring_loop_find)
  qed
  show ?case
  proof (cases "targetFile todo")
    case None
    then show ?thesis using Cons by (simp add: phase2_spec_def List.map_filter_simps)
  next
    case (Some target)
    show ?thesis
    proof (cases "trim target = []")
      case True
      then show ?thesis using Cons Some by (simp add: phase2_spec_def List.map_filter_simps)
    next
      case False
      then have "target \<noteq> []" using trim_Nil by auto
      then show ?thesis using Cons Some False sm [of target]
        by (simp add: phase2_spec_def List.map_filter_simps split: option.splits)
    qed
  qed
qed

text \<open>
  Claim C5, as amended. For every glob matcher, Phase 2 is the function of the
  specification: a ticket whose artifact file name is not blank (not empty after
  trimming) is matched by the glob matcher when the name holds \<open>*\<close> or \<open>?\<close>, and by
  containment in either direction otherwise, and is reported with the first changed file
  that matches. With the changed files \<open>[src/foo.ts]\<close> the pattern \<open>src/*.ts\<close> gives a
  match (under the glob matcher modelled from the specification) and the pattern
  \<open>src/bar.ts\<close> gives none.
\<close>

theorem phase2_matching:
  "phase2_matchByFileName mm files todos = phase2_spec mm files todos
   \<and> phase2_matchByFileName (\<lambda>file pattern. glob pattern file) [js ''src/foo.ts'']
        [ex_todo no (Some (js ''src/*.ts''))]
      = [\<lparr>m_todoNo = no, m_reason = match_reason (js ''src/*.ts'') (js ''src/foo.ts''),
          m_matchedFile = js ''src/foo.ts''\<rparr>]
   \<and> phase2_matchByFileName mm [js ''src/foo.ts''] [ex_todo no (Some (js ''src/bar.ts''))] = []"
proof -
  have 1: "phase2_matchByFileName (\<lambda>file pattern. glob pattern file) [js ''src/foo.ts'']
        [ex_todo no (Some (js ''src/*.ts''))]
      = [\<lparr>m_todoNo = no, m_reason = match_reason (js ''src/*.ts'') (js ''src/foo.ts''),
          m_matchedFile = js ''src/foo.ts''\<rparr>]"
    by (simp add: ex_todo_def js_def trim_def is_space_def)
  have 2: "phase2_matchByFileName mm [js ''src/foo.ts''] [ex_todo no (Some (js ''src/bar.ts''))] = []"
    by (simp add: ex_todo_def js_def trim_def is_space_def)
  show ?thesis using phase2_refines 1 2 by blast
qed

text \<open>
  Claim C5 as it was stated fails: a ticket whose artifact file name is one space has a
  non-empty file name without a wildcard, the changed file \<open>a b.ts\<close> contains it, and
  Phase 2 reports no match, since it skips a file name that is blank.
\<close>

theorem phase2_matching_counterexample:
  "targetFile (ex_todo (js ''TODO-1'') (Some (js '' ''))) = Some (js '' '') \<and> js '' '' \<noteq> []
   \<and> \<not> str_includes (js '' '') (js ''*'') \<and> \<not> str_includes (js '' '') (js ''?'')
   \<and> str_includes (js ''a b.ts'') (js '' '')
   \<and> phase2_matchByFileName (\<lambda>file pattern. glob pattern file) [js ''a b.ts'']
        [ex_todo (js ''TODO-1'') (Some (js '' ''))] = []"
  by code_simp

section \<open>The audit history\<close>

lemma mark_once:
  assumes "docs st todoNo = Some t" and "\<not> read_fails st todoNo" and "\<not> write_fails st todoNo"
  shows "\<exists>st' t'. markAsCloseCandidate now st todoNo params = Inr (st', t')
     \<and> docs st' = (docs st)(todoNo \<mapsto> t') \<and> read_fails st' = read_fails st
     \<and> write_fails st' = write_fails st
     \<and> history t' = Some ((case history t of None \<Rightarrow> [] | Some h \<Rightarrow> h) @ [historyEntry now params])
     \<and> closeCandidate t' = Some (js ''ON'') \<and> ToDoNo t' = ToDoNo t"
  using assms
  by (auto simp: markAsCloseCandidate_def Let_def push_history_def update_aiAnalysis_def
      update_status_def split: option.splits)

text \<open>
  Claim C6. For a ticket that is in the store (and a store that answers), a call of
  \<open>markAsCloseCandidate\<close> returns the ticket with the history it had (the empty one if
  it had none) and exactly one entry behind it, and with the flag set; a second call
  adds exactly one more entry behind the first and leaves the flag set. The store holds
  the same document identifiers as before, with one document under the ticket number.
\<close>

theorem history_append_only:
  assumes "docs st todoNo = Some t" and "\<not> read_fails st todoNo" and "\<not> write_fails st todoNo"
  shows "\<exists>st1 t1 st2 t2.
       markAsCloseCandidate now1 st todoNo params1 = Inr (st1, t1)
     \<and> markAsCloseCandidate now2 st1 todoNo params2 = Inr (st2, t2)
     \<and> history t1 = Some ((case history t of None \<Rightarrow> [] | Some h \<Rightarrow> h) @ [historyEntry now1 params1])
     \<and> history t2 = Some ((case history t of None \<Rightarrow> [] | Some h \<Rightarrow> h)
                            @ [historyEntry now1 params1, historyEntry now2 params2])
     \<and> closeCandidate t1 = Some (js ''ON'') \<and> closeCandidate t2 = Some (js ''ON'')
     \<and> docs st1 = (docs st)(todoNo \<mapsto> t1) \<and> docs st2 = (docs st)(todoNo \<mapsto> t2)
     \<and> dom (docs st2) = dom (docs st) \<and> ToDoNo t2 = ToDoNo t"
proof -
  from mark_once [OF assms, of now1 params1] obtain st1 t1 where
    1: "markAsCloseCandidate now1 st todoNo params1 = Inr (st1, t1)"
       "docs st1 = (docs st)(todoNo \<mapsto> t1)" "read_fails st1 = read_fails st"
       "write_fails st1 = write_fails st"
       "history t1 = Some ((case history t of None \<Rightarrow> [] | Some h \<Rightarrow> h) @ [historyEntry now1 params1])"
       "closeCandidate t1 = Some (js ''ON'')" "ToDoNo t1 = ToDoNo t"
    by blast
  have a: "docs st1 todoNo = Some t1" "\<not> read_fails st1 todoNo" "\<not> write_fails st1 todoNo"
    using 1 assms by simp_all
  from mark_once [OF a, of now2 params2] obtain st2 t2 where
    2: "markAsCloseCandidate now2 st1 todoNo params2 = Inr (st2, t2)"
       "docs st2 = (docs st1)(todoNo \<mapsto> t2)"
       "history t2 = Some ((case history t1 of None \<Rightarrow> [] | Some h \<Rightarrow> h) @ [historyEntry now2 params2])"
       "closeCandidate t2 = Some (js ''ON'')" "ToDoNo t2 = ToDoNo t1"
    by blast
  have d: "dom (docs st2) = dom (docs st)"
    using 1(2) 2(2) assms(1) by auto
  show ?thesis
    apply (rule exI [of _ st1], rule exI [of _ t1], rule exI [of _ st2], rule exI [of _ t2])
    using 1 2 d by simp
qed

theorem history_append_only_witness:
  "docs (ex_store [ex_todo (js ''TODO-1'') None]) (js ''TODO-1'') = Some (ex_todo (js ''TODO-1'') None)
   \<and> (\<exists>st1 t1 st2 t2.
       markAsCloseCandidate (js ''2025-01-01T00:00:00.000Z'') (ex_store [ex_todo (js ''TODO-1'') None]) (js ''TODO-1'')
           (phase1_result \<lparr>c_hash = js ''0123456789abcdef'', c_message = js ''Closes: TODO-1''\<rparr>) = Inr (st1, t1)
     \<and> markAsCloseCandidate (js ''2025-01-02T00:00:00.000Z'') st1 (js ''TODO-1'')
           (phase1_result \<lparr>c_hash = js ''0123456789abcdef'', c_message = js ''Closes: TODO-1''\<rparr>) = Inr (st2, t2)
     \<and> map_option length (history t2) = Some 2
     \<and> dom (docs st2) = {js ''TODO-1''})"
proof -
  let ?st = "ex_store [ex_todo (js ''TODO-1'') None]"
  let ?p = "phase1_result \<lparr>c_hash = js ''0123456789abcdef'', c_message = js ''Closes: TODO-1''\<rparr>"
  have h1: "docs ?st (js ''TODO-1'') = Some (ex_todo (js ''TODO-1'') None)"
    by (simp add: ex_store_def ex_todo_def)
  have h2: "\<not> read_fails ?st (js ''TODO-1'')" "\<not> write_fails ?st (js ''TODO-1'')"
    by (simp_all add: ex_store_def)
  have h3: "history (ex_todo (js ''TODO-1'') None) = None" "dom (docs ?st) = {js ''TODO-1''}"
    by (auto simp: ex_todo_def ex_store_def)
  from history_append_only [OF h1 h2, of "js ''2025-01-01T00:00:00.000Z''" ?p "js ''2025-01-02T00:00:00.000Z''" ?p]
  obtain st1 t1 st2 t2 where
    "markAsCloseCandidate (js ''2025-01-01T00:00:00.000Z'') ?st (js ''TODO-1'') ?p = Inr (st1, t1)"
    "markAsCloseCandidate (js ''2025-01-02T00:00:00.000Z'') st1 (js ''TODO-1'') ?p = Inr (st2, t2)"
    "history t2 = Some ((case history (ex_todo (js ''TODO-1'') None) of None \<Rightarrow> [] | Some h \<Rightarrow> h)
          @ [historyEntry (js ''2025-01-01T00:00:00.000Z'') ?p, historyEntry (js ''2025-01-02T00:00:00.000Z'') ?p])"
    "dom (docs st2) = dom (docs ?st)"
    by blast
  then show ?thesis using h1 h3 by auto
qed

section \<open>The phase named in a history entry\<close>

text \<open>
  Claim C7, at an input where the code departs from it. The commit message names no
  ticket, the only open ticket names the changed file as its artifact, and no model is
  used: the merged result comes from Phase 2 and says so, and the history entry that is
  stored for it names the method of Phase 1.
\<close>

theorem phase2_result_labelled_phase1:
  "map (\<lambda>e. p_phase (snd e))
      (merged (main ((ex_cfg False)\<lparr>AI_ANALYSIS_ENABLED := False, OPENAI_API_KEY := False\<rparr>)
        (ex_world (js ''update'') (js ''diff'') (js ''fdiff'')
           (Returns [ex_todo (js ''TODO-1'') (Some (js ''src/foo.ts''))]))
        (ex_store [ex_todo (js ''TODO-1'') (Some (js ''src/foo.ts''))]))) = [PHASE2_PLAIN]
   \<and> map_option (\<lambda>t. map_option (map h_method) (history t))
      (docs (final_store (main ((ex_cfg False)\<lparr>AI_ANALYSIS_ENABLED := False, OPENAI_API_KEY := False\<rparr>)
        (ex_world (js ''update'') (js ''diff'') (js ''fdiff'')
           (Returns [ex_todo (js ''TODO-1'') (Some (js ''src/foo.ts''))]))
        (ex_store [ex_todo (js ''TODO-1'') (Some (js ''src/foo.ts''))]))) (js ''TODO-1''))
     = Some (Some [METHOD_PHASE1])
   \<and> METHOD_PHASE1 \<noteq> METHOD_PHASE2"
  by code_simp

section \<open>The size limits\<close>

lemma quickAICheck_call:
  "OPENAI_API_KEY cfg \<Longrightarrow>
   snd (quickAICheck cfg w calls fileDiff todo) = calls @ [QuickCall (take 3000 fileDiff) todo]"
  by (simp add: quickAICheck_def Let_def)

lemma phase3_call:
  assumes "AI_ANALYSIS_ENABLED cfg" and "OPENAI_API_KEY cfg" and "\<not> detectSecrets diff"
  shows "snd (phase3_analyzeWithAI cfg w calls diff files todos)
     = calls @ [AnalyzeCall (take MAX_DIFF_SIZE diff) todos]"
  using assms
  by (auto simp: phase3_analyzeWithAI_def sanitizeDiff_def analyzeWithAI_def Let_def
      split: outcome.splits)

lemma main_calls_shape:
  assumes "c \<in> set (model_calls (main cfg w st))"
  shows "(\<exists>f t. c = QuickCall (take 3000 (git_fileDiff w f)) t)
     \<or> (\<exists>ts. c = AnalyzeCall (take MAX_DIFF_SIZE (git_commitDiff w)) ts)"
proof -
  from main_calls [of cfg w st] assms obtain commit where
    "model_calls (main cfg w st) = snd (merge_phases cfg w commit
        (filterExcludedFiles (git_changedFiles w)) (getUnclosedTodos cfg w))"
    by auto
  with merge_phases_calls [of "{}" commit cfg w "filterExcludedFiles (git_changedFiles w)"
      "getUnclosedTodos cfg w"] assms
  show ?thesis
    by (auto simp: quick_calls_def)
qed

lemma secret_patterns_not_x:
  "p \<in> set SECRET_PATTERNS \<Longrightarrow> matches p [] = [] \<and> matches p (120 # rest) = []"
  by (auto simp: SECRET_PATTERNS_def SECRET_OPENAI_def SECRET_GOOGLE_def SECRET_AWS_def
      SECRET_PASSWORD_def SECRET_APIKEY_def SECRET_SECRET_def SECRET_TOKEN_def SECRET_BEARER_def
      SECRET_PRIVATE_KEY_def txt_cs_def txt_i_def lit_def lit_i_def canon_def is_lower_def)

lemma re_test_xs: "p \<in> set SECRET_PATTERNS \<Longrightarrow> \<not> re_test p (replicate n 120)"
  by (induction n) (auto simp: secret_patterns_not_x)

lemma no_secret_in_xs: "\<not> detectSecrets (replicate n 120)"
  by (auto simp: detectSecrets_def detectSecrets_loop_iff list_ex_iff re_test_xs)

text \<open>
  Claim C8. With the analysis enabled, the API key set and no secret in the diff,
  Phase 3 makes one model call, and the diff in it is the first \<open>MAX_DIFF_SIZE\<close> = 6000
  code units of the commit diff: exactly that many when the diff is longer, the diff
  itself otherwise. The model check of Phase 2 sends the first 3000 code units of the
  file diff. In a run of \<open>main\<close> every model call holds a diff cut in one of these two ways.
\<close>

theorem diff_truncated_before_model_call:
  assumes "AI_ANALYSIS_ENABLED cfg" and "OPENAI_API_KEY cfg" and "\<not> detectSecrets diff"
  shows "\<exists>sent. sanitizeDiff diff files = Inr sent
     \<and> snd (phase3_analyzeWithAI cfg w calls diff files todos) = calls @ [AnalyzeCall sent todos]
     \<and> sent = take MAX_DIFF_SIZE diff \<and> MAX_DIFF_SIZE = 6000
     \<and> (MAX_DIFF_SIZE < length diff \<longrightarrow> length sent = MAX_DIFF_SIZE)
     \<and> (length diff \<le> MAX_DIFF_SIZE \<longrightarrow> sent = diff)
     \<and> snd (quickAICheck cfg w calls fileDiff todo) = calls @ [QuickCall (take 3000 fileDiff) todo]
     \<and> (3000 < length fileDiff \<longrightarrow> length (take 3000 fileDiff) = 3000)
     \<and> (length fileDiff \<le> 3000 \<longrightarrow> take 3000 fileDiff = fileDiff)
     \<and> (\<forall>c \<in> set (model_calls (main cfg w st)).
           (\<exists>f t. c = QuickCall (take 3000 (git_fileDiff w f)) t)
         \<or> (\<exists>ts. c = AnalyzeCall (take MAX_DIFF_SIZE (git_commitDiff w)) ts))"
  using assms phase3_call [OF assms] quickAICheck_call [of cfg] main_calls_shape [of _ cfg w st]
  by (auto simp: sanitizeDiff_def MAX_DIFF_SIZE_def)

theorem diff_truncated_before_model_call_witness:
  "\<not> detectSecrets (replicate 6001 120)
   \<and> snd (phase3_analyzeWithAI (ex_cfg True) (ex_world (js ''update'') (replicate 6001 120) (replicate 3001 120) (Returns []))
        [] (replicate 6001 120) [] []) = [AnalyzeCall (replicate 6000 120) []]
   \<and> snd (quickAICheck (ex_cfg True) (ex_world (js ''update'') (replicate 6001 120) (replicate 3001 120) (Returns []))
        [] (replicate 3001 120) (ex_todo (js ''TODO-1'') None)) = [QuickCall (replicate 3000 120) (ex_todo (js ''TODO-1'') None)]"
proof -
  have h: "\<not> detectSecrets (replicate 6001 120)"
    by (rule no_secret_in_xs)
  have c: "AI_ANALYSIS_ENABLED (ex_cfg True)" "OPENAI_API_KEY (ex_cfg True)"
    by (simp_all add: ex_cfg_def)
  from diff_truncated_before_model_call [OF c h, of "[]" _ "[]" "[]" "replicate 3001 120" "ex_todo (js ''TODO-1'') None"] h
  show ?thesis by (auto simp: MAX_DIFF_SIZE_def)
qed

section \<open>The project of the minutes\<close>

lemma find_project_loop_find:
  "find_project_loop n ds = find (\<lambda>d. normalizeProjectName (data_name d) = n) ds"
  by (induction ds) (auto simp: or_else_def)

lemma findProjectByName_none:
  assumes "find (\<lambda>d. normalizeProjectName (data_name d) = normalizeProjectName name) stored = None"
    and "mw_projects mw = Returns stored" and "mw_firestore mw"
  shows "findProjectByName mw name = Inr None"
  using assms by (simp add: findProjectByName_def find_project_loop_find)

text \<open>
  Claim C9, as amended. In a run of the minutes analyzer in which the file is read, the
  model answers and the store works, and to which no \<open>--projectId\<close> was given:
  \<open>findProjectByName\<close> returns the first stored project whose normalized name equals
  the normalized extracted name (normalizing trims and turns smart quotes into straight
  ones, so a name in curly quotes equals the same name in straight quotes). The run exits
  with code 0 and has added exactly one record, with status \<open>pending\<close> and the extracted
  name; the project identifier of the record is that of the first stored project with an
  equal normalized name, and it is empty when the extracted name is blank or no stored
  name is equal.
\<close>

theorem project_name_resolution:
  assumes "o_file opts = Some file" and "file \<noteq> []" and "mw_api_key mw"
    and "readFile mw = Inr content" and "mw_analyze mw content = Returns a"
    and "mw_firestore mw" and "mw_projects mw = Returns stored" and "mw_add mw = Returns docRef"
    and "o_projectId opts = []"
  shows "findProjectByName mw (projectName a) =
           (if projectName a = [] \<or> trim (projectName a) = [] then Inr None
            else Inr (map_option
                   (\<lambda>d. \<lparr>fp_id = (case data_id d of None \<Rightarrow> doc_id d | Some i \<Rightarrow> i),
                          fp_name = data_name d\<rparr>)
                   (find (\<lambda>d. normalizeProjectName (data_name d) = normalizeProjectName (projectName a))
                      stored)))
     \<and> (\<exists>record. minutes_main opts mw pendings = (0, pendings @ [(docRef, record)])
          \<and> pm_status record = js ''pending''
          \<and> projectNameFromMinutes record = projectName a
          \<and> pm_projectId record =
              (case (if projectName a = [] \<or> trim (projectName a) = [] then None
                     else find (\<lambda>d. normalizeProjectName (data_name d) = normalizeProjectName (projectName a))
                            stored) of
                 None \<Rightarrow> []
               | Some d \<Rightarrow> (case data_id d of None \<Rightarrow> doc_id d | Some i \<Rightarrow> i)))
     \<and> (find (\<lambda>d. normalizeProjectName (data_name d) = normalizeProjectName (projectName a)) stored = None \<longrightarrow>
          (\<exists>record. minutes_main opts mw pendings = (0, pendings @ [(docRef, record)])
             \<and> pm_projectId record = [] \<and> pm_status record = js ''pending''
             \<and> projectNameFromMinutes record = projectName a))
     \<and> normalizeProjectName ([0x201C] @ js ''Project A'' @ [0x201D]) = normalizeProjectName (js ''\"Project A\"'')
     \<and> normalizeProjectName name = map (\<lambda>c. if c = 0x201C \<or> c = 0x201D then 34 else if c = 0x2018 \<or> c = 0x2019 then 39 else c) (trim name)"
proof -
  let ?found = "if projectName a = [] \<or> trim (projectName a) = [] then None
                else find (\<lambda>d. normalizeProjectName (data_name d) = normalizeProjectName (projectName a)) stored"
  let ?id = "case ?found of None \<Rightarrow> [] | Some d \<Rightarrow> (case data_id d of None \<Rightarrow> doc_id d | Some i \<Rightarrow> i)"
  have 1: "findProjectByName mw (projectName a) =
           (if projectName a = [] \<or> trim (projectName a) = [] then Inr None
            else Inr (map_option
                   (\<lambda>d. \<lparr>fp_id = (case data_id d of None \<Rightarrow> doc_id d | Some i \<Rightarrow> i),
                          fp_name = data_name d\<rparr>)
                   (find (\<lambda>d. normalizeProjectName (data_name d) = normalizeProjectName (projectName a))
                      stored)))"
    using assms(6,7) by (auto simp: findProjectByName_def find_project_loop_find split: option.splits)
  define pid where "pid = ?id"
  have r: "resolveProjectId mw opts (projectName a) = Inr pid"
    using 1 assms(9) by (auto simp: pid_def resolveProjectId_def Let_def split: option.splits)
  have m: "minutes_main opts mw pendings =
      (0, pendings @ [(docRef,
         \<lparr>minutesFile = basename file, minutesFilePath = file,
          pm_projectId = pid, projectNameFromMinutes = projectName a,
          pm_issues = an_issues a, pm_todos = an_todos a,
          pm_commit = o_commit opts, pm_pushedBy = o_pushedBy opts,
          pm_analyzedAt = mw_clock mw, pm_model = mw_model mw,
          pm_status = js ''pending'', createdAt = mw_clock mw\<rparr>)])"
    using assms(1-6,8) r
    by (simp add: minutes_main_def savePendingMinutes_def Let_def or_else_def)
  have 2: "\<exists>record. minutes_main opts mw pendings = (0, pendings @ [(docRef, record)])
          \<and> pm_status record = js ''pending''
          \<and> projectNameFromMinutes record = projectName a
          \<and> pm_projectId record = ?id"
    unfolding m pid_def by simp
  have 3: "find (\<lambda>d. normalizeProjectName (data_name d) = normalizeProjectName (projectName a)) stored = None \<longrightarrow>
          (\<exists>record. minutes_main opts mw pendings = (0, pendings @ [(docRef, record)])
             \<and> pm_projectId record = [] \<and> pm_status record = js ''pending''
             \<and> projectNameFromMinutes record = projectName a)"
    unfolding m pid_def by simp
  have 4: "normalizeProjectName ([0x201C] @ js ''Project A'' @ [0x201D]) = normalizeProjectName (js ''\"Project A\"'')"
    by code_simp
  have 5: "normalizeProjectName name = map (\<lambda>c. if c = 0x201C \<or> c = 0x201D then 34 else if c = 0x2018 \<or> c = 0x2019 then 39 else c) (trim name)"
    by (auto simp: normalizeProjectName_def trim_def)
  show ?thesis using 1 2 3 4 5 by blast
qed

theorem project_name_resolution_witness:
  "o_projectId (ex_options []) = []
   \<and> find (\<lambda>d. normalizeProjectName (data_name d) = normalizeProjectName ([0x201C] @ js ''Project A'' @ [0x201D, 32]))
        [\<lparr>doc_id = js ''p0'', data_id = None, data_name = js ''Project B''\<rparr>,
         \<lparr>doc_id = js ''p1'', data_id = None, data_name = js ''\"Project A\"''\<rparr>]
       = Some \<lparr>doc_id = js ''p1'', data_id = None, data_name = js ''\"Project A\"''\<rparr>
   \<and> (\<exists>record. minutes_main (ex_options [])
          (ex_minutes_world ([0x201C] @ js ''Project A'' @ [0x201D, 32])
             [\<lparr>doc_id = js ''p0'', data_id = None, data_name = js ''Project B''\<rparr>,
              \<lparr>doc_id = js ''p1'', data_id = None, data_name = js ''\"Project A\"''\<rparr>]) []
            = (0, [(js ''doc1'', record)])
        \<and> pm_projectId record = js ''p1'')
   \<and> find (\<lambda>d. normalizeProjectName (data_name d) = normalizeProjectName (js ''Project B''))
        [\<lparr>doc_id = js ''p1'', data_id = None, data_name = js ''Project A''\<rparr>] = None
   \<and> (\<exists>record. minutes_main (ex_options [])
          (ex_minutes_world (js ''Project B'') [\<lparr>doc_id = js ''p1'', data_id = None, data_name = js ''Project A''\<rparr>]) []
            = (0, [(js ''doc1'', record)])
        \<and> pm_projectId record = [])"
proof -
  let ?name = "[0x201C] @ js ''Project A'' @ [0x201D, 32]"
  let ?stored = "[\<lparr>doc_id = js ''p0'', data_id = None, data_name = js ''Project B''\<rparr>,
         \<lparr>doc_id = js ''p1'', data_id = None, data_name = js ''\"Project A\"''\<rparr>]"
  let ?mw = "ex_minutes_world ?name ?stored"
  let ?a = "\<lparr>projectName = ?name, an_issues = [], an_todos = []\<rparr>"
  have h: "o_file (ex_options []) = Some (js ''minutes/a.md'')" "js ''minutes/a.md'' \<noteq> []"
    "mw_api_key ?mw" "readFile ?mw = Inr (js ''minutes'')" "mw_analyze ?mw (js ''minutes'') = Returns ?a"
    "mw_firestore ?mw" "mw_projects ?mw = Returns ?stored" "mw_add ?mw = Returns (js ''doc1'')"
    "o_projectId (ex_options []) = []"
    by (simp_all add: ex_options_def ex_minutes_world_def readFile_def MAX_FILE_SIZE_def js_def)
  have f: "find (\<lambda>d. normalizeProjectName (data_name d) = normalizeProjectName ?name) ?stored
       = Some \<lparr>doc_id = js ''p1'', data_id = None, data_name = js ''\"Project A\"''\<rparr>"
    by code_simp
  have t: "\<not> (?name = [] \<or> trim ?name = [])" by code_simp
  have pn: "projectName ?a = ?name" by simp
  note t1 = project_name_resolution [OF h, of "[]", unfolded pn, THEN conjunct2, THEN conjunct1]
  then obtain r where
    r: "minutes_main (ex_options []) ?mw [] = (0, [] @ [(js ''doc1'', r)])"
     "pm_projectId r = (case (if ?name = [] \<or> trim ?name = [] then None
                     else find (\<lambda>d. normalizeProjectName (data_name d) = normalizeProjectName ?name) ?stored) of
                 None \<Rightarrow> []
               | Some d \<Rightarrow> (case data_id d of None \<Rightarrow> doc_id d | Some i \<Rightarrow> i))"
    by blast
  have "pm_projectId r = js ''p1''"
    unfolding r(2) using t f by simp
  with r(1) have a: "\<exists>record. minutes_main (ex_options []) ?mw [] = (0, [(js ''doc1'', record)])
      \<and> pm_projectId record = js ''p1''"
    by simp
  let ?stored2 = "[\<lparr>doc_id = js ''p1'', data_id = None, data_name = js ''Project A''\<rparr>]"
  let ?mw2 = "ex_minutes_world (js ''Project B'') ?stored2"
  let ?a2 = "\<lparr>projectName = js ''Project B'', an_issues = [], an_todos = []\<rparr>"
  have h2: "o_file (ex_options []) = Some (js ''minutes/a.md'')" "js ''minutes/a.md'' \<noteq> []"
    "mw_api_key ?mw2" "readFile ?mw2 = Inr (js ''minutes'')" "mw_analyze ?mw2 (js ''minutes'') = Returns ?a2"
    "mw_firestore ?mw2" "mw_projects ?mw2 = Returns ?stored2" "mw_add ?mw2 = Returns (js ''doc1'')"
    "o_projectId (ex_options []) = []"
    by (simp_all add: ex_options_def ex_minutes_world_def readFile_def MAX_FILE_SIZE_def js_def)
  have n: "find (\<lambda>d. normalizeProjectName (data_name d) = normalizeProjectName (js ''Project B'')) ?stored2 = None"
    by code_simp
  have pn2: "projectName ?a2 = js ''Project B''" by simp
  note t2 = project_name_resolution [OF h2, of "[]", unfolded pn2]
  from t2 [THEN conjunct2, THEN conjunct2, THEN conjunct1, THEN mp, OF n] obtain r2 where
    "minutes_main (ex_options []) ?mw2 [] = (0, [] @ [(js ''doc1'', r2)])" "pm_projectId r2 = []"
    by blast
  then have b: "\<exists>record. minutes_main (ex_options []) ?mw2 [] = (0, [(js ''doc1'', record)])
      \<and> pm_projectId record = []"
    by simp
  from h(9) f a n b show ?thesis by blast
qed

text \<open>
  Claim C9 as it was stated fails: with \<open>--projectId P1\<close> the lookup is skipped, and
  although no stored name matches, the record that is written refers to project \<open>P1\<close>.
\<close>

theorem unresolved_project_name_counterexample:
  "find (\<lambda>d. normalizeProjectName (data_name d) = normalizeProjectName (js ''X'')) [] = None
   \<and> fst (minutes_main (ex_options (js ''P1'')) (ex_minutes_world (js ''X'') []) []) = 0
   \<and> map (\<lambda>e. pm_projectId (snd e))
        (snd (minutes_main (ex_options (js ''P1'')) (ex_minutes_world (js ''X'') []) [])) = [js ''P1'']
   \<and> js ''P1'' \<noteq> []"
  by code_simp

section \<open>A failing query of the open tickets\<close>

text \<open>
  Claim C10. In a run that has the commit (the query is not reached without it): if the
  query of the tickets throws, or the query of the project throws or finds no project
  for the repository name, \<open>getUnclosedTodos\<close> returns the empty list and \<open>main\<close> exits
  with code 0, having made no model call and no change to the store.
\<close>

theorem store_failure_exits_zero:
  assumes "getLatestCommit w = Some commit"
    and "(case REPOSITORY cfg of
            None \<Rightarrow> query_all_todos w = Throws
          | Some r \<Rightarrow>
              if r = [] then query_all_todos w = Throws
              else query_projects w r = Throws \<or> query_projects w r = Returns []
                \<or> (\<exists>p ps. query_projects w r = Returns (p # ps)
                      \<and> query_todos_of w (project_id p) = Throws))"
  shows "getUnclosedTodos cfg w = [] \<and> exit_code (main cfg w st) = 0
     \<and> final_store (main cfg w st) = st \<and> model_calls (main cfg w st) = []
     \<and> merged (main cfg w st) = []"
proof -
  have "getUnclosedTodos cfg w = []"
    using assms(2) by (auto simp: getUnclosedTodos_def split: option.splits if_splits)
  then show ?thesis using assms(1) by (simp add: main_def Let_def)
qed

theorem store_failure_exits_zero_witness:
  "getLatestCommit (ex_world (js ''Closes: TODO-1'') (js ''diff'') (js ''fdiff'') Throws)
     = Some \<lparr>c_hash = js ''0123456789abcdef'', c_message = js ''Closes: TODO-1''\<rparr>
   \<and> query_all_todos (ex_world (js ''Closes: TODO-1'') (js ''diff'') (js ''fdiff'') Throws) = Throws
   \<and> exit_code (main (ex_cfg True) (ex_world (js ''Closes: TODO-1'') (js ''diff'') (js ''fdiff'') Throws)
        (ex_store [])) = 0"
proof -
  let ?w = "ex_world (js ''Closes: TODO-1'') (js ''diff'') (js ''fdiff'') Throws"
  have h1: "getLatestCommit ?w = Some \<lparr>c_hash = js ''0123456789abcdef'', c_message = js ''Closes: TODO-1''\<rparr>"
    by code_simp
  have q: "query_all_todos ?w = Throws"
    by (simp add: ex_world_def)
  have h2: "(case REPOSITORY (ex_cfg True) of
            None \<Rightarrow> query_all_todos ?w = Throws
          | Some r \<Rightarrow>
              if r = [] then query_all_todos ?w = Throws
              else query_projects ?w r = Throws \<or> query_projects ?w r = Returns []
                \<or> (\<exists>p ps. query_projects ?w r = Returns (p # ps)
                      \<and> query_todos_of ?w (project_id p) = Throws))"
    using q by (simp add: ex_cfg_def)
  from store_failure_exits_zero [OF h1 h2, of "ex_store []"] h1 q show ?thesis by blast
qed

end
